theory Spec2Isabelle
  imports Main
begin

section \<open>Python values used by the program\<close>

text \<open>
  The exceptions that the rules engine can raise: \<open>IllegalMoveError\<close> is the class declared
  in \<^verbatim>\<open>game_state.py\<close>, \<open>NotImplementedError\<close> is raised by \<^verbatim>\<open>update\<close> for an action
  that is neither a pass nor a move, and \<open>IndexError\<close> is what list indexing raises out of
  range.
\<close>

datatype error = IllegalMoveError | NotImplementedError | IndexError

text \<open>
  Indexing a Python list with an integer: an index from \<open>-len\<close> up to \<open>-1\<close> counts from the
  end, anything else outside \<open>0 .. len - 1\<close> raises.  \<open>py_norm\<close> is the position that is
  finally read or written.
\<close>

definition py_norm :: "'a list \<Rightarrow> int \<Rightarrow> nat option" where
  "py_norm xs i =
     (if 0 \<le> i \<and> i < int (length xs) then Some (nat i)
      else if - int (length xs) \<le> i \<and> i < 0 then Some (nat (i + int (length xs)))
      else None)"

definition py_get :: "'a list \<Rightarrow> int \<Rightarrow> error + 'a" where
  "py_get xs i = (case py_norm xs i of None \<Rightarrow> Inl IndexError | Some k \<Rightarrow> Inr (xs ! k))"

text \<open>
  Python sets are kept as duplicate-free lists.  \<open>set_add\<close> is \<^verbatim>\<open>s.add(x)\<close>,
  \<open>set_minus\<close> is \<^verbatim>\<open>a - b\<close> and \<open>set_union\<close> is \<^verbatim>\<open>a |= b\<close>.  The order in which Python
  iterates over a set is not fixed by the language; the lists fix one order.
\<close>

definition set_add :: "'a \<Rightarrow> 'a list \<Rightarrow> 'a list" where
  "set_add x xs = (if x \<in> set xs then xs else xs @ [x])"

definition set_minus :: "'a list \<Rightarrow> 'a list \<Rightarrow> 'a list" where
  "set_minus xs ys = filter (\<lambda>x. x \<notin> set ys) xs"

definition set_union :: "'a list \<Rightarrow> 'a list \<Rightarrow> 'a list" where
  "set_union xs ys = fold set_add ys xs"

text \<open>
  A \<^verbatim>\<open>for\<close> loop whose body reads only and may raise (\<open>fold_err\<close>), a list comprehension
  whose element expression may raise (\<open>map_err\<close>), and a \<^verbatim>\<open>for\<close> loop whose body mutates
  an object in place and may raise (\<open>for_each\<close>): the object is returned as the loop left
  it, together with the exception, if any.
\<close>

fun fold_err :: "('a \<Rightarrow> 's \<Rightarrow> error + 's) \<Rightarrow> 'a list \<Rightarrow> 's \<Rightarrow> error + 's" where
  "fold_err f [] s = Inr s"
| "fold_err f (x # xs) s = (case f x s of Inl e \<Rightarrow> Inl e | Inr s' \<Rightarrow> fold_err f xs s')"

fun map_err :: "('a \<Rightarrow> error + 'b) \<Rightarrow> 'a list \<Rightarrow> error + 'b list" where
  "map_err f [] = Inr []"
| "map_err f (x # xs) =
     (case f x of Inl e \<Rightarrow> Inl e
      | Inr y \<Rightarrow> (case map_err f xs of Inl e \<Rightarrow> Inl e | Inr ys \<Rightarrow> Inr (y # ys)))"

fun for_each :: "('a \<Rightarrow> 's \<Rightarrow> error option \<times> 's) \<Rightarrow> 'a list \<Rightarrow> 's \<Rightarrow> error option \<times> 's" where
  "for_each f [] s = (None, s)"
| "for_each f (x # xs) s =
     (case f x s of (Some e, s') \<Rightarrow> (Some e, s') | (None, s') \<Rightarrow> for_each f xs s')"


section \<open>piece.py\<close>

datatype Color = C_WHITE | C_BLACK

text \<open>
  \<^verbatim>\<open>Piece\<close> defines \<^verbatim>\<open>__hash__\<close> but no \<^verbatim>\<open>__eq__\<close>, so two pieces are equal only when they
  are the same object.  Every piece handled by \<^verbatim>\<open>get_groups\<close> is created once, by one run
  of \<^verbatim>\<open>Board.pieces\<close>, for one intersection; there identity and equality of the three
  fields coincide, and a piece is modelled by its fields.
\<close>

datatype Piece = Piece (row: int) (col: int) (color: Color)

definition adjacent_coordinates :: "Piece \<Rightarrow> (int \<times> int) list" where
  "adjacent_coordinates p =
     (if row p \<ge> 1 then [(row p - 1, col p)] else []) @
     (if row p \<le> 17 then [(row p + 1, col p)] else []) @
     (if col p \<ge> 1 then [(row p, col p - 1)] else []) @
     (if col p \<le> 17 then [(row p, col p + 1)] else [])"


section \<open>game_state.py: the board\<close>

datatype PositionState = PS_EMPTY | PS_WHITE | PS_BLACK

datatype Group = Group (group_pieces: "Piece list") (liberties: "(int \<times> int) list")

definition liberal :: "Group \<Rightarrow> bool" where
  "liberal g = (length (liberties g) \<noteq> 0)"

text \<open>
  A \<^verbatim>\<open>Board\<close> object: its identity and the list of rows in \<^verbatim>\<open>_board\<close>.  The identity is
  needed because \<^verbatim>\<open>Board\<close> defines \<^verbatim>\<open>__hash__\<close> but no \<^verbatim>\<open>__eq__\<close>: \<^verbatim>\<open>==\<close> on boards is
  the default comparison of \<^verbatim>\<open>object\<close>, which is identity.
\<close>

record Board =
  ident :: nat
  rows :: "PositionState list list"

definition Board_init :: "nat \<Rightarrow> Board" where
  "Board_init i = \<lparr>ident = i, rows = replicate 19 (replicate 19 PS_EMPTY)\<rparr>"

definition wf_board :: "Board \<Rightarrow> bool" where
  "wf_board b = (length (rows b) = 19 \<and> (\<forall>rw \<in> set (rows b). length rw = 19))"

text \<open>The expression \<^verbatim>\<open>self._board[r][c]\<close>.\<close>

definition board_at :: "Board \<Rightarrow> int \<Rightarrow> int \<Rightarrow> error + PositionState" where
  "board_at b r c = (case py_get (rows b) r of Inl e \<Rightarrow> Inl e | Inr rw \<Rightarrow> py_get rw c)"

text \<open>
  \<^verbatim>\<open>self._board[r][c] = cell_state\<close>: both index operations can raise, and then nothing has
  been written.
\<close>

definition set_cell :: "Board \<Rightarrow> int \<Rightarrow> int \<Rightarrow> PositionState \<Rightarrow> error option \<times> Board" where
  "set_cell b r c cell_state =
     (case py_norm (rows b) r of
        None \<Rightarrow> (Some IndexError, b)
      | Some i \<Rightarrow>
          (case py_norm (rows b ! i) c of
             None \<Rightarrow> (Some IndexError, b)
           | Some j \<Rightarrow> (None, b\<lparr>rows := (rows b)[i := (rows b ! i)[j := cell_state]]\<rparr>)))"

definition remove_group :: "Board \<Rightarrow> Group \<Rightarrow> error option \<times> Board" where
  "remove_group b grp =
     for_each (\<lambda>piece b. set_cell b (row piece) (col piece) PS_EMPTY) (group_pieces grp) b"

text \<open>\<^verbatim>\<open>__copy__\<close>: a new object, with identity \<open>i\<close>, holding a copy of every row.\<close>

definition copy :: "nat \<Rightarrow> Board \<Rightarrow> Board" where
  "copy i b = \<lparr>ident = i, rows = map (\<lambda>r. r) (rows b)\<rparr>"

text \<open>The generator \<^verbatim>\<open>Board.pieces\<close>, in row-major order.\<close>

definition pieces :: "Board \<Rightarrow> Piece list" where
  "pieces b =
     concat (map (\<lambda>(r_ind, rw).
       concat (map (\<lambda>(c_ind, position_state).
         if position_state = PS_WHITE then [Piece (int r_ind) (int c_ind) C_WHITE]
         else if position_state = PS_BLACK then [Piece (int r_ind) (int c_ind) C_BLACK]
         else []) (enumerate 0 rw))) (enumerate 0 (rows b)))"

definition is_position_occupied :: "Board \<Rightarrow> int \<Rightarrow> int \<Rightarrow> error + bool" where
  "is_position_occupied b r c =
     (case board_at b r c of Inl e \<Rightarrow> Inl e | Inr ps \<Rightarrow> Inr (\<not> (ps = PS_EMPTY)))"

fun find_adjacent_pieces :: "Piece \<Rightarrow> Piece list \<Rightarrow> Piece list" where
  "find_adjacent_pieces p [] = []"
| "find_adjacent_pieces p (some_p # rest) =
     (if (\<bar>row p - row some_p\<bar> = 1 \<and> col p = col some_p) \<and>
         (\<bar>col p - col some_p\<bar> = 1 \<and> row p = row some_p)
      then p # find_adjacent_pieces p rest
      else find_adjacent_pieces p rest)"

lemma find_adjacent_pieces_Nil: "find_adjacent_pieces p ps = []"
  by (induction ps) auto

text \<open>
  \<^verbatim>\<open>build_group\<close> adds to \<^verbatim>\<open>group\<close> in place; the model returns the set as the call
  leaves it.  \<open>build_group_loop\<close> is its \<^verbatim>\<open>for adj in all_adj\<close> loop.  The recursion ends
  because \<^verbatim>\<open>find_adjacent_pieces\<close> returns the empty list on every input, so that the loop
  has nothing to run over.
\<close>

function build_group :: "Piece \<Rightarrow> Piece list \<Rightarrow> Piece list \<Rightarrow> Piece list"
  and build_group_loop :: "Piece list \<Rightarrow> Piece list \<Rightarrow> Piece list \<Rightarrow> Piece list" where
  "build_group piece considered_pieces grp =
     build_group_loop considered_pieces
       (find_adjacent_pieces piece (set_minus considered_pieces grp)) grp"
| "build_group_loop considered_pieces [] grp = grp"
| "build_group_loop considered_pieces (adj # all_adj) grp =
     build_group_loop considered_pieces all_adj
       (build_group adj (set_minus considered_pieces (set_add adj grp)) (set_add adj grp))"
  by pat_completeness auto
termination
  by (relation "measure (\<lambda>x. case x of Inl _ \<Rightarrow> 1 | Inr (_, all_adj, _) \<Rightarrow> 2 * length all_adj)")
     (simp_all add: find_adjacent_pieces_Nil)

definition count_liberties :: "Board \<Rightarrow> Piece list \<Rightarrow> error + (int \<times> int) list" where
  "count_liberties b grp =
     fold_err (\<lambda>piece liberties.
       fold_err (\<lambda>(row, col) liberties.
         case board_at b row col of
           Inl e \<Rightarrow> Inl e
         | Inr ps \<Rightarrow> Inr (if ps = PS_EMPTY then set_add (row, col) liberties else liberties))
         (adjacent_coordinates piece) liberties) grp []"

definition get_groups :: "Board \<Rightarrow> Color \<Rightarrow> error + Group list" where
  "get_groups b c =
     (let all_pieces = filter (\<lambda>p. color p = c) (pieces b);
          (raw_groups, added_pieces) =
            fold (\<lambda>piece (raw_groups, added_pieces).
                    if \<not> (piece \<in> set added_pieces)
                    then let grp = build_group piece (set_minus all_pieces [piece]) [piece]
                         in (raw_groups @ [grp], set_union added_pieces grp)
                    else (raw_groups, added_pieces))
              all_pieces ([], [])
      in map_err (\<lambda>raw_group.
            case count_liberties b raw_group of
              Inl e \<Rightarrow> Inl e
            | Inr libs \<Rightarrow> Inr (Group raw_group libs)) raw_groups)"

text \<open>
  \<^verbatim>\<open>__hash__\<close>: the built-in hash of the string that joins \<^verbatim>\<open>str(x)\<close> for every cell.  The
  hash function of Python strings is a parameter \<open>h\<close>.
\<close>

definition str_PositionState :: "PositionState \<Rightarrow> string" where
  "str_PositionState x =
     (case x of PS_EMPTY \<Rightarrow> ''PositionState.EMPTY''
      | PS_WHITE \<Rightarrow> ''PositionState.WHITE''
      | PS_BLACK \<Rightarrow> ''PositionState.BLACK'')"

definition board_hash :: "(string \<Rightarrow> int) \<Rightarrow> Board \<Rightarrow> int" where
  "board_hash h b = h (concat (map str_PositionState (concat (rows b))))"

text \<open>
  \<^verbatim>\<open>x == y\<close> on boards (no \<^verbatim>\<open>__eq__\<close> is defined, so \<^verbatim>\<open>object\<close>'s identity comparison
  applies), and \<^verbatim>\<open>x in s\<close> for a set of boards: some element has the hash of \<open>x\<close> and is
  \<open>x\<close> itself or equal to \<open>x\<close>.
\<close>

definition board_eq :: "Board \<Rightarrow> Board \<Rightarrow> bool" where
  "board_eq x y = (ident x = ident y)"

definition board_in :: "(string \<Rightarrow> int) \<Rightarrow> Board \<Rightarrow> Board list \<Rightarrow> bool" where
  "board_in h x s =
     list_ex (\<lambda>y. board_hash h y = board_hash h x \<and> (ident y = ident x \<or> board_eq y x)) s"


section \<open>game_state.py: actions and the game state\<close>

text \<open>
  \<open>OtherAction\<close> stands for an instance of any other subclass of \<^verbatim>\<open>Action\<close>.
\<close>

datatype Action = Pass | Move int int | OtherAction

definition COLOR_REVERSE :: "Color \<Rightarrow> Color" where
  "COLOR_REVERSE x = (case x of C_WHITE \<Rightarrow> C_BLACK | C_BLACK \<Rightarrow> C_WHITE)"

text \<open>
  The fields of \<^verbatim>\<open>GameState\<close>.  \<open>past_boards\<close> lists the objects in the set
  \<^verbatim>\<open>_past_boards\<close>; \<open>next_ident\<close> is not a field of the class: it is the identity that the
  next object created will get, different from the identity of every object alive.
\<close>

record GameState =
  board :: Board
  turn :: Color
  num_of_passes :: int
  past_boards :: "Board list"
  next_ident :: nat

definition GameState_init :: GameState where
  "GameState_init =
     \<lparr>board = Board_init 0, turn = C_BLACK, num_of_passes = 0, past_boards = [], next_ident = 1\<rparr>"

definition is_ended :: "GameState \<Rightarrow> bool" where
  "is_ended s = (num_of_passes s = 2)"

definition fill_new_piece :: "Board \<Rightarrow> int \<Rightarrow> int \<Rightarrow> Color \<Rightarrow> error option \<times> Board" where
  "fill_new_piece b move_r move_c turn' =
     (let ps = (if turn' = C_BLACK then PS_BLACK else PS_WHITE)
      in set_cell b move_r move_c ps)"

text \<open>The static method \<^verbatim>\<open>_remove_components\<close>.\<close>

definition remove_components_static :: "Board \<Rightarrow> Color \<Rightarrow> error option \<times> Board" where
  "remove_components_static b color' =
     (case get_groups b color' of
        Inl e \<Rightarrow> (Some e, b)
      | Inr groups \<Rightarrow>
          for_each (\<lambda>grp b. if \<not> liberal grp then remove_group b grp else (None, b))
            groups b)"

text \<open>
  \<^verbatim>\<open>detect_ko\<close> works on a copy, so the state is only read.  The copy is a new object: its
  identity is \<open>next_ident\<close>, which no board of the history has.  The method returns
  \<^verbatim>\<open>True\<close> or falls off its end, returning \<^verbatim>\<open>None\<close>, which \<^verbatim>\<open>update\<close> takes as false.
\<close>

definition detect_ko :: "(string \<Rightarrow> int) \<Rightarrow> GameState \<Rightarrow> int \<Rightarrow> int \<Rightarrow> error + bool" where
  "detect_ko h s move_r move_c =
     (let hypothetical_board = copy (next_ident s) (board s);
          other_color = COLOR_REVERSE (turn s)
      in case fill_new_piece hypothetical_board move_r move_c (turn s) of
           (Some e, _) \<Rightarrow> Inl e
         | (None, b1) \<Rightarrow>
             (case remove_components_static b1 other_color of
                (Some e, _) \<Rightarrow> Inl e
              | (None, b2) \<Rightarrow>
                  (case remove_components_static b2 (turn s) of
                     (Some e, _) \<Rightarrow> Inl e
                   | (None, b3) \<Rightarrow> Inr (board_in h b3 (past_boards s)))))"

text \<open>
  The last two statements of \<^verbatim>\<open>update\<close>: \<^verbatim>\<open>self._past_boards.add(copy(self._board))\<close> and
  the change of turn.
\<close>

definition commit :: "(string \<Rightarrow> int) \<Rightarrow> GameState \<Rightarrow> GameState" where
  "commit h s =
     (let snapshot = copy (next_ident s) (board s)
      in s\<lparr>past_boards :=
              (if board_in h snapshot (past_boards s) then past_boards s
               else past_boards s @ [snapshot]),
            turn := COLOR_REVERSE (turn s),
            next_ident := Suc (next_ident s)\<rparr>)"

text \<open>
  \<^verbatim>\<open>update\<close> returns the exception raised, if any, and the game state as the call leaves it.
\<close>

definition update :: "(string \<Rightarrow> int) \<Rightarrow> Action \<Rightarrow> GameState \<Rightarrow> error option \<times> GameState" where
  "update h action s =
     (case action of
        Pass \<Rightarrow> (None, commit h (s\<lparr>num_of_passes := num_of_passes s + 1\<rparr>))
      | Move move_r move_c \<Rightarrow>
          (case is_position_occupied (board s) move_r move_c of
             Inl e \<Rightarrow> (Some e, s)
           | Inr True \<Rightarrow> (Some IllegalMoveError, s)
           | Inr False \<Rightarrow>
               (case detect_ko h s move_r move_c of
                  Inl e \<Rightarrow> (Some e, s)
                | Inr True \<Rightarrow> (Some IllegalMoveError, s)
                | Inr False \<Rightarrow>
                    (case fill_new_piece (board s) move_r move_c (turn s) of
                       (Some e, b1) \<Rightarrow> (Some e, s\<lparr>board := b1\<rparr>)
                     | (None, b1) \<Rightarrow>
                         (case remove_components_static b1 (COLOR_REVERSE (turn s)) of
                            (Some e, b2) \<Rightarrow> (Some e, s\<lparr>board := b2\<rparr>)
                          | (None, b2) \<Rightarrow>
                              (case remove_components_static b2 (turn s) of
                                 (Some e, b3) \<Rightarrow> (Some e, s\<lparr>board := b3\<rparr>)
                               | (None, b3) \<Rightarrow> (None, commit h (s\<lparr>board := b3\<rparr>)))))))
      | OtherAction \<Rightarrow> (Some NotImplementedError, s))"

text \<open>A caller applying a list of actions in turn, going on after an exception.\<close>

fun apply_all :: "(string \<Rightarrow> int) \<Rightarrow> Action list \<Rightarrow> GameState \<Rightarrow> GameState" where
  "apply_all h [] s = s"
| "apply_all h (a # as) s = apply_all h as (snd (update h a s))"


section \<open>Concrete inputs\<close>

text \<open>
  A hash function for the concrete runs below.  It sends every string to the same number,
  so the hash comparison of the set lookup never excludes an element and membership is
  decided by the comparison of the boards alone.
\<close>

definition const_hash :: "string \<Rightarrow> int" where
  "const_hash s = 0"

text \<open>The fixture \<^verbatim>\<open>board_a\<close> of \<^verbatim>\<open>test.py\<close>.\<close>

definition board_a :: Board where
  "board_a =
     snd (set_cell (snd (set_cell (snd (set_cell (Board_init 0) 0 0 PS_WHITE)) 0 10 PS_BLACK))
       13 8 PS_WHITE)"

text \<open>Game states reached from the initial one by a few actions.\<close>

definition state_after_one_move :: GameState where
  "state_after_one_move = apply_all const_hash [Move 3 3] GameState_init"

definition state_after_two_passes :: GameState where
  "state_after_two_passes = apply_all const_hash [Pass, Pass] GameState_init"

text \<open>
  Six moves after which Black's stone at (0, 0) has its last liberty at (0, 1), next to the
  white stones at (1, 0), (1, 1) and (0, 2).
\<close>

definition suicide_prefix :: "Action list" where
  "suicide_prefix = [Move 0 0, Move 1 0, Move 10 10, Move 1 1, Move 10 12, Move 0 2]"

definition suicide_state :: GameState where
  "suicide_state = apply_all const_hash suicide_prefix GameState_init"

text \<open>
  A ko.  After eight actions Black's stones at (0, 1), (1, 0) and (2, 1) surround the white
  stone at (1, 1), and White's stones at (0, 2), (1, 3) and (2, 2) surround the empty cell
  (1, 2).  The ninth action, Black at (1, 2), captures the white stone at (1, 1).
\<close>

definition ko_prefix :: "Action list" where
  "ko_prefix =
     [Move 0 1, Move 0 2, Move 1 0, Move 1 3, Move 2 1, Move 2 2, Move 10 10, Move 1 1, Move 1 2]"

definition ko_state :: GameState where
  "ko_state = apply_all const_hash ko_prefix GameState_init"

text \<open>
  Six moves after which White has a single stone at (0, 0) and a chain of two stones at
  (0, 2) and (0, 3), Black has stones at (1, 0) and (1, 2), and (0, 1) is empty.
\<close>

definition capture_prefix :: "Action list" where
  "capture_prefix = [Move 1 0, Move 0 0, Move 1 2, Move 0 2, Move 10 10, Move 0 3]"

definition capture_state :: GameState where
  "capture_state = apply_all const_hash capture_prefix GameState_init"


section \<open>Notions used in the proofs\<close>

text \<open>
  \<open>group_step\<close> is the body of the loop of
  \<^verbatim>\<open>get_groups\<close>, \<open>row_pieces\<close> and \<open>cell_pieces\<close> are the two levels of the generator
  \<^verbatim>\<open>pieces\<close>, and \<open>liberty_step\<close> is the body of the inner loop of \<^verbatim>\<open>count_liberties\<close>.
\<close>

definition group_step :: "Piece list \<Rightarrow> Piece \<Rightarrow> Piece list list \<times> Piece list \<Rightarrow> Piece list list \<times> Piece list" where
  "group_step all_pieces = (\<lambda>piece (raw_groups, added_pieces).
                    if \<not> (piece \<in> set added_pieces)
                    then let grp = build_group piece (set_minus all_pieces [piece]) [piece]
                         in (raw_groups @ [grp], set_union added_pieces grp)
                    else (raw_groups, added_pieces))"

definition cell_pieces :: "nat \<Rightarrow> nat \<times> PositionState \<Rightarrow> Piece list" where
  "cell_pieces r_ind = (\<lambda>(c_ind, position_state).
         if position_state = PS_WHITE then [Piece (int r_ind) (int c_ind) C_WHITE]
         else if position_state = PS_BLACK then [Piece (int r_ind) (int c_ind) C_BLACK]
         else [])"

definition row_pieces :: "nat \<times> PositionState list \<Rightarrow> Piece list" where
  "row_pieces = (\<lambda>(r_ind, rw). concat (map (cell_pieces r_ind) (enumerate 0 rw)))"

text \<open>
  The cell state of a stone of a colour, a coordinate pair on the 19 by 19 board, and the
  empty cells next to a piece.
\<close>

definition stone :: "Color \<Rightarrow> PositionState" where
  "stone c = (case c of C_WHITE \<Rightarrow> PS_WHITE | C_BLACK \<Rightarrow> PS_BLACK)"

definition on_board :: "int \<Rightarrow> int \<Rightarrow> bool" where
  "on_board r c = (0 \<le> r \<and> r \<le> 18 \<and> 0 \<le> c \<and> c \<le> 18)"

definition empty_neighbours :: "Board \<Rightarrow> Piece \<Rightarrow> (int \<times> int) list" where
  "empty_neighbours b p =
     filter (\<lambda>(r, c). board_at b r c = Inr PS_EMPTY) (adjacent_coordinates p)"

definition liberty_step :: "Board \<Rightarrow> int \<times> int \<Rightarrow> (int \<times> int) list \<Rightarrow> error + (int \<times> int) list" where
  "liberty_step b = (\<lambda>(row, col) liberties.
         case board_at b row col of
           Inl e \<Rightarrow> Inl e
         | Inr ps \<Rightarrow> Inr (if ps = PS_EMPTY then set_add (row, col) liberties else liberties))"

text \<open>One group for every stone of the colour, holding that stone alone.\<close>

definition singleton_groups :: "Board \<Rightarrow> Color \<Rightarrow> Group list" where
  "singleton_groups b c =
     map (\<lambda>p. Group [p] (empty_neighbours b p)) (filter (\<lambda>p. color p = c) (pieces b))"

text \<open>
  Every board in the position history was created before the next object will be: its
  identity is below \<open>next_ident\<close>.
\<close>

definition fresh_idents :: "GameState \<Rightarrow> bool" where
  "fresh_idents s = (\<forall>p \<in> set (past_boards s). ident p < next_ident s)"


section \<open>Indexing a well-formed board\<close>

lemma py_norm_in_range: "i < length xs \<Longrightarrow> py_norm xs (int i) = Some i"
  by (simp add: py_norm_def)

lemma py_get_in_range: "i < length xs \<Longrightarrow> py_get xs (int i) = Inr (xs ! i)"
  by (simp add: py_get_def py_norm_in_range)

lemma wf_board_row: "wf_board b \<Longrightarrow> i < 19 \<Longrightarrow> length (rows b ! i) = 19"
  by (simp add: wf_board_def)

lemma board_at_in_range:
  "wf_board b \<Longrightarrow> i < 19 \<Longrightarrow> j < 19 \<Longrightarrow> board_at b (int i) (int j) = Inr (rows b ! i ! j)"
proof -
  assume wf: "wf_board b" and i: "i < 19" and j: "j < 19"
  have "py_get (rows b) (int i) = Inr (rows b ! i)"
    using wf i by (simp add: py_get_in_range wf_board_def)
  moreover have "py_get (rows b ! i) (int j) = Inr (rows b ! i ! j)"
    using wf i j by (simp add: py_get_in_range wf_board_row)
  ultimately show ?thesis by (simp add: board_at_def)
qed

lemma rows_eqI:
  assumes "wf_board g1" "wf_board g2"
    and eq: "\<And>i j. i < 19 \<Longrightarrow> j < 19 \<Longrightarrow> rows g1 ! i ! j = rows g2 ! i ! j"
  shows "rows g1 = rows g2"
proof (rule nth_equalityI)
  show "length (rows g1) = length (rows g2)"
    using assms(1,2) by (simp add: wf_board_def)
next
  fix i assume "i < length (rows g1)"
  then have i: "i < 19" using assms(1) by (simp add: wf_board_def)
  show "rows g1 ! i = rows g2 ! i"
  proof (rule nth_equalityI)
    show "length (rows g1 ! i) = length (rows g2 ! i)"
      using assms(1,2) i by (simp add: wf_board_row)
  next
    fix j assume "j < length (rows g1 ! i)"
    then have "j < 19" using assms(1) i by (simp add: wf_board_row)
    then show "rows g1 ! i ! j = rows g2 ! i ! j" using i by (rule eq[rotated])
  qed
qed

lemma rows_copy: "rows (copy i b) = rows b"
  by (simp add: copy_def)

lemma wf_board_a: "wf_board board_a"
  by code_simp


section \<open>The hash of a board\<close>

text \<open>
  Claim C8.  Two grids that hold the same cell state at every coordinate (rows and columns
  0 to 18) have the same hash, whatever the hash function of strings is.
\<close>

theorem board_hash_equal_grids:
  assumes "wf_board g1" and "wf_board g2"
    and cells: "\<forall>r \<in> {0..18}. \<forall>c \<in> {0..18}. board_at g1 r c = board_at g2 r c"
  shows "board_hash h g1 = board_hash h g2"
proof -
  have "rows g1 = rows g2"
  proof (rule rows_eqI[OF assms(1,2)])
    fix i j :: nat assume ij: "i < 19" "j < 19"
    then have "board_at g1 (int i) (int j) = board_at g2 (int i) (int j)"
      using cells by simp
    then show "rows g1 ! i ! j = rows g2 ! i ! j"
      using ij assms(1,2) by (simp add: board_at_in_range)
  qed
  then show ?thesis by (simp add: board_hash_def)
qed

theorem board_hash_equal_grids_witness:
  "wf_board board_a \<and> wf_board (copy 1 board_a) \<and>
   board_hash const_hash board_a = board_hash const_hash (copy 1 board_a)"
proof -
  have w1: "wf_board board_a" by (rule wf_board_a)
  have w2: "wf_board (copy 1 board_a)" using w1 by (simp add: wf_board_def rows_copy)
  have c: "\<forall>r \<in> {0..18}. \<forall>c \<in> {0..18}. board_at board_a r c = board_at (copy 1 board_a) r c"
    by (simp add: board_at_def rows_copy)
  show ?thesis using w1 w2 board_hash_equal_grids[OF w1 w2 c] by simp
qed

section \<open>The adjacency test\<close>

text \<open>
  Claim C3 says that \<^verbatim>\<open>find_adjacent_pieces\<close> returns the pieces of the collection that are
  4-adjacent to \<open>p\<close>.  The test in the source joins the row case and the column case by
  \<^verbatim>\<open>and\<close>, which no pair of coordinates satisfies (lemma \<open>find_adjacent_pieces_Nil\<close>):
  for the stone at (3, 3) the neighbours at (3, 4) and (4, 3) are not found.
\<close>

theorem find_adjacent_pieces_misses_neighbour:
  "find_adjacent_pieces (Piece 3 3 C_BLACK) [Piece 3 4 C_BLACK, Piece 4 3 C_BLACK] = []"
  by simp


section \<open>Moves onto an occupied cell\<close>

text \<open>
  Claim C6.  A move onto a cell that is not empty raises \<^verbatim>\<open>IllegalMoveError\<close> (the only
  legality exception of the source), and the game state after the call is the state before
  it: grid, turn, pass counter and position history.
\<close>

theorem update_occupied_cell:
  assumes "board_at (board s) r c = Inr ps" and "ps \<noteq> PS_EMPTY"
  shows "update h (Move r c) s = (Some IllegalMoveError, s)"
  using assms by (simp add: update_def is_position_occupied_def)

theorem update_occupied_cell_witness:
  "board_at (board state_after_one_move) 3 3 = Inr PS_BLACK \<and> PS_BLACK \<noteq> PS_EMPTY \<and>
   update const_hash (Move 3 3) state_after_one_move = (Some IllegalMoveError, state_after_one_move)"
proof -
  have a: "board_at (board state_after_one_move) 3 3 = Inr PS_BLACK" by code_simp
  have b: "PS_BLACK \<noteq> PS_EMPTY" by simp
  show ?thesis using a b update_occupied_cell[OF a b, of const_hash] by simp
qed


section \<open>The pass counter\<close>

lemma num_of_passes_commit: "num_of_passes (commit h s) = num_of_passes s"
  by (simp add: commit_def Let_def)

lemma num_of_passes_update:
  "num_of_passes (snd (update h a s)) = num_of_passes s + (if a = Pass then 1 else 0)"
  by (cases a)
     (simp_all add: update_def num_of_passes_commit
        split: sum.splits bool.splits prod.splits option.splits)

lemma num_of_passes_apply_all:
  "num_of_passes (apply_all h as s) = num_of_passes s + int (count_list as Pass)"
  by (induction as arbitrary: s) (simp_all add: num_of_passes_update)

text \<open>
  Claim C9.  A call of \<^verbatim>\<open>update\<close> with a move leaves the pass counter as it was, whether
  the move succeeds or not, and after any sequence of calls from the initial state that holds
  exactly two passes the game has ended, wherever the two passes stand in the sequence.
\<close>

theorem pass_counter_never_reset:
  "num_of_passes (snd (update h (Move r c) s)) = num_of_passes s \<and>
   (count_list as Pass = 2 \<longrightarrow> is_ended (apply_all h as GameState_init))"
  by (simp add: num_of_passes_update num_of_passes_apply_all is_ended_def GameState_init_def)

theorem pass_counter_never_reset_witness:
  "count_list [Pass, Move 3 3, Pass] Pass = 2 \<and>
   num_of_passes (snd (update const_hash (Move 3 3) GameState_init)) = num_of_passes GameState_init \<and>
   is_ended (apply_all const_hash [Pass, Move 3 3, Pass] GameState_init)"
proof -
  have a: "count_list [Pass, Move 3 3, Pass] Pass = 2" by simp
  show ?thesis
    using a pass_counter_never_reset[where h = const_hash and r = 3 and c = 3 and s = GameState_init
        and as = "[Pass, Move 3 3, Pass]"]
    by blast
qed

lemma detect_ko_num_of_passes:
  "detect_ko h (s\<lparr>num_of_passes := n\<rparr>) r c = detect_ko h s r c"
  by (simp add: detect_ko_def split: prod.splits option.splits)

lemma update_num_of_passes:
  "update h a (s\<lparr>num_of_passes := n\<rparr>) =
     (fst (update h a s),
      (snd (update h a s))\<lparr>num_of_passes := n + (if a = Pass then 1 else 0)\<rparr>)"
  by (cases a)
     (simp_all add: update_def detect_ko_num_of_passes commit_def Let_def
        split: sum.splits bool.splits prod.splits option.splits)


section \<open>What the group finder computes\<close>

lemma build_group_unchanged: "build_group piece considered_pieces grp = grp"
  by (simp add: find_adjacent_pieces_Nil)

declare build_group.simps [simp del]

lemma set_add_new: "x \<notin> set xs \<Longrightarrow> set_add x xs = xs @ [x]"
  by (simp add: set_add_def)

lemma set_union_single_new: "x \<notin> set xs \<Longrightarrow> set_union xs [x] = xs @ [x]"
  by (simp add: set_union_def set_add_new)

text \<open>
  The loop of \<^verbatim>\<open>get_groups\<close>, run over the stones in any order \<open>xs\<close>, makes one group
  for each stone, in that order: the order in which Python iterates over the set
  \<^verbatim>\<open>all_pieces\<close> changes the order of the groups and nothing else.
\<close>

lemma fold_group_step:
  "distinct xs \<Longrightarrow> set xs \<inter> set added = {} \<Longrightarrow>
   fold (group_step all_pieces) xs (raw, added) = (raw @ map (\<lambda>p. [p]) xs, added @ xs)"
proof (induction xs arbitrary: raw added)
  case Nil
  then show ?case by simp
next
  case (Cons x xs)
  from Cons.prems have x: "x \<notin> set added" and d: "distinct xs" and
    i: "set xs \<inter> set (added @ [x]) = {}" by auto
  have "group_step all_pieces x (raw, added) = (raw @ [[x]], added @ [x])"
    using x by (simp add: group_step_def build_group_unchanged set_union_single_new Let_def)
  then show ?case using Cons.IH[OF d i] by simp
qed

lemma in_set_concat_enumerate:
  "y \<in> set (concat (map f (enumerate n xs))) \<longleftrightarrow>
     (\<exists>i. i < length xs \<and> y \<in> set (f (n + i, xs ! i)))"
proof (induction xs arbitrary: n)
  case Nil
  then show ?case by simp
next
  case (Cons x xs)
  have "(\<exists>i. i < length (x # xs) \<and> y \<in> set (f (n + i, (x # xs) ! i))) \<longleftrightarrow>
        y \<in> set (f (n, x)) \<or> (\<exists>i. i < length xs \<and> y \<in> set (f (Suc n + i, xs ! i)))"
    (is "?L \<longleftrightarrow> ?R")
  proof
    assume ?L
    then obtain i where i: "i < length (x # xs)" "y \<in> set (f (n + i, (x # xs) ! i))" by blast
    show ?R
    proof (cases i)
      case 0
      then show ?thesis using i by simp
    next
      case (Suc k)
      then show ?thesis using i by auto
    qed
  next
    assume ?R
    then show ?L
    proof
      assume "y \<in> set (f (n, x))"
      then have "0 < length (x # xs) \<and> y \<in> set (f (n + 0, (x # xs) ! 0))" by simp
      then show ?L by blast
    next
      assume "\<exists>i. i < length xs \<and> y \<in> set (f (Suc n + i, xs ! i))"
      then obtain i where "i < length xs" "y \<in> set (f (Suc n + i, xs ! i))" by blast
      then have "Suc i < length (x # xs) \<and> y \<in> set (f (n + Suc i, (x # xs) ! Suc i))" by simp
      then show ?L by blast
    qed
  qed
  then show ?case using Cons.IH[of "Suc n"] by simp
qed

lemma distinct_concat_enumerate:
  assumes d: "\<And>i x. distinct (f (i, x))"
    and k: "\<And>i x y. y \<in> set (f (i, x)) \<Longrightarrow> key y = i"
  shows "distinct (concat (map f (enumerate n xs)))"
proof (induction xs arbitrary: n)
  case Nil
  then show ?case by simp
next
  case (Cons x xs)
  have "set (f (n, x)) \<inter> set (concat (map f (enumerate (Suc n) xs))) = {}"
  proof (rule ccontr)
    assume "\<not> ?thesis"
    then obtain y where y1: "y \<in> set (f (n, x))"
      and y2: "y \<in> set (concat (map f (enumerate (Suc n) xs)))" by blast
    from y2 obtain i where "y \<in> set (f (Suc n + i, xs ! i))"
      unfolding in_set_concat_enumerate by blast
    then have "key y = Suc n + i" by (rule k)
    moreover have "key y = n" using y1 by (rule k)
    ultimately show False by simp
  qed
  then show ?case using Cons.IH[of "Suc n"] d by simp
qed

lemma pieces_alt: "pieces b = concat (map row_pieces (enumerate 0 (rows b)))"
  by (simp add: pieces_def row_pieces_def cell_pieces_def)

lemma in_cell_pieces:
  "p \<in> set (cell_pieces i (j, x)) \<longleftrightarrow> p = Piece (int i) (int j) (color p) \<and> x = stone (color p)"
  by (cases p; cases x; cases "color p") (auto simp: cell_pieces_def stone_def)

lemma in_set_pieces:
  "p \<in> set (pieces b) \<longleftrightarrow>
     (\<exists>i j. i < length (rows b) \<and> j < length (rows b ! i) \<and>
        p = Piece (int i) (int j) (color p) \<and> rows b ! i ! j = stone (color p))"
proof -
  have "p \<in> set (pieces b) \<longleftrightarrow>
          (\<exists>i. i < length (rows b) \<and> p \<in> set (row_pieces (0 + i, rows b ! i)))"
    by (simp only: pieces_alt in_set_concat_enumerate)
  also have "\<dots> \<longleftrightarrow>
          (\<exists>i. i < length (rows b) \<and>
             (\<exists>j. j < length (rows b ! i) \<and> p \<in> set (cell_pieces i (0 + j, rows b ! i ! j))))"
    by (simp only: row_pieces_def prod.case in_set_concat_enumerate add_0)
  finally show ?thesis by (simp add: in_cell_pieces)
qed

lemma distinct_pieces: "distinct (pieces b)"
  unfolding pieces_alt
proof (rule distinct_concat_enumerate[where key = "\<lambda>p. nat (row p)"])
  fix i x
  show "distinct (row_pieces (i, x))"
    unfolding row_pieces_def prod.case
  proof (rule distinct_concat_enumerate[where key = "\<lambda>p. nat (col p)"])
    fix j y show "distinct (cell_pieces i (j, y))" by (simp add: cell_pieces_def)
  next
    fix j y p assume "p \<in> set (cell_pieces i (j, y))"
    then show "nat (col p) = j" by (auto simp: cell_pieces_def split: if_splits)
  qed
next
  fix i x p assume "p \<in> set (row_pieces (i, x))"
  then show "nat (row p) = i"
    unfolding row_pieces_def prod.case in_set_concat_enumerate
    by (auto simp: cell_pieces_def split: if_splits)
qed

lemma board_at_on_board:
  "wf_board b \<Longrightarrow> on_board r c \<Longrightarrow> board_at b r c = Inr (rows b ! nat r ! nat c)"
proof -
  assume wf: "wf_board b" and on: "on_board r c"
  have "nat r < 19" "nat c < 19" "int (nat r) = r" "int (nat c) = c"
    using on unfolding on_board_def by linarith+
  then show ?thesis using board_at_in_range[OF wf, of "nat r" "nat c"] by simp
qed

lemma pieces_on_board:
  "wf_board b \<Longrightarrow> p \<in> set (pieces b) \<Longrightarrow> on_board (row p) (col p)"
proof -
  assume wf: "wf_board b" and "p \<in> set (pieces b)"
  then obtain i j where i: "i < length (rows b)" and j: "j < length (rows b ! i)"
    and p: "p = Piece (int i) (int j) (color p)"
    unfolding in_set_pieces by blast
  have "i < 19" using wf i by (simp add: wf_board_def)
  moreover from this have "j < 19" using wf j by (simp add: wf_board_row)
  moreover have "row p = int i" "col p = int j" using p by (metis Piece.sel(1), metis Piece.sel(2))
  ultimately show ?thesis by (simp add: on_board_def)
qed

lemma adjacent_coordinates_on_board:
  "on_board (row p) (col p) \<Longrightarrow> (r, c) \<in> set (adjacent_coordinates p) \<Longrightarrow> on_board r c"
  by (auto simp: adjacent_coordinates_def on_board_def split: if_splits)

lemma distinct_adjacent_coordinates: "distinct (adjacent_coordinates p)"
  by (simp add: adjacent_coordinates_def)

lemma fold_liberty_step:
  "wf_board b \<Longrightarrow> \<forall>(r, c) \<in> set xs. on_board r c \<Longrightarrow> distinct xs \<Longrightarrow>
   set xs \<inter> set acc = {} \<Longrightarrow>
   fold_err (liberty_step b) xs acc =
     Inr (acc @ filter (\<lambda>(r, c). board_at b r c = Inr PS_EMPTY) xs)"
proof (induction xs arbitrary: acc)
  case Nil
  then show ?case by simp
next
  case (Cons x xs)
  obtain r c where x: "x = (r, c)" by (cases x)
  have on: "on_board r c" using Cons.prems(2) x by simp
  then obtain ps where ps: "board_at b r c = Inr ps"
    using board_at_on_board[OF Cons.prems(1) on] by simp
  have new: "(r, c) \<notin> set acc" using Cons.prems(4) x by auto
  show ?case
  proof (cases "ps = PS_EMPTY")
    case True
    have step: "liberty_step b x acc = Inr (acc @ [(r, c)])"
      using ps True new by (simp add: liberty_step_def x set_add_new)
    have "set xs \<inter> set (acc @ [(r, c)]) = {}" using Cons.prems(3,4) x by auto
    then have "fold_err (liberty_step b) xs (acc @ [(r, c)]) =
        Inr ((acc @ [(r, c)]) @ filter (\<lambda>(r, c). board_at b r c = Inr PS_EMPTY) xs)"
      using Cons.IH[of "acc @ [(r, c)]"] Cons.prems by simp
    then show ?thesis using step ps True x by simp
  next
    case False
    have step: "liberty_step b x acc = Inr acc"
      using ps False by (simp add: liberty_step_def x)
    have "set xs \<inter> set acc = {}" using Cons.prems(4) by auto
    then have "fold_err (liberty_step b) xs acc =
        Inr (acc @ filter (\<lambda>(r, c). board_at b r c = Inr PS_EMPTY) xs)"
      using Cons.IH[of acc] Cons.prems by simp
    then show ?thesis using step ps False x by simp
  qed
qed

lemma count_liberties_single:
  assumes "wf_board b" and "on_board (row p) (col p)"
  shows "count_liberties b [p] = Inr (empty_neighbours b p)"
proof -
  have "\<forall>(r, c) \<in> set (adjacent_coordinates p). on_board r c"
    using adjacent_coordinates_on_board[OF assms(2)] by blast
  then have "fold_err (liberty_step b) (adjacent_coordinates p) [] =
      Inr ([] @ filter (\<lambda>(r, c). board_at b r c = Inr PS_EMPTY) (adjacent_coordinates p))"
    using assms(1) by (intro fold_liberty_step) (simp_all add: distinct_adjacent_coordinates)
  then show ?thesis
    by (simp add: count_liberties_def empty_neighbours_def liberty_step_def)
qed

lemma map_err_all_ok:
  "(\<And>x. x \<in> set xs \<Longrightarrow> f x = Inr (g x)) \<Longrightarrow> map_err f xs = Inr (map g xs)"
  by (induction xs) simp_all

lemma get_groups_singletons:
  assumes wf: "wf_board b"
  shows "get_groups b c = Inr (singleton_groups b c)"
proof -
  let ?all = "filter (\<lambda>p. color p = c) (pieces b)"
  have fold: "fold (group_step ?all) ?all ([], []) = (map (\<lambda>p. [p]) ?all, ?all)"
    using fold_group_step[of ?all "[]" ?all "[]"] distinct_pieces by simp
  have "map_err (\<lambda>raw_group.
            case count_liberties b raw_group of
              Inl e \<Rightarrow> Inl e
            | Inr libs \<Rightarrow> Inr (Group raw_group libs)) (map (\<lambda>p. [p]) ?all)
        = Inr (map (\<lambda>g. Group g (empty_neighbours b (hd g))) (map (\<lambda>p. [p]) ?all))"
  proof (rule map_err_all_ok)
    fix g assume "g \<in> set (map (\<lambda>p. [p]) ?all)"
    then obtain p where g: "g = [p]" and p: "p \<in> set (pieces b)" by auto
    have "count_liberties b [p] = Inr (empty_neighbours b p)"
      using count_liberties_single[OF wf pieces_on_board[OF wf p]] .
    then show "(case count_liberties b g of
              Inl e \<Rightarrow> Inl e
            | Inr libs \<Rightarrow> Inr (Group g libs)) = Inr (Group g (empty_neighbours b (hd g)))"
      using g by simp
  qed
  then show ?thesis
    using fold
    by (simp add: get_groups_def singleton_groups_def group_step_def[symmetric] comp_def)
qed

section \<open>Removing groups\<close>

lemma set_cell_on_board:
  assumes wf: "wf_board b" and on: "on_board r c"
  shows "set_cell b r c v = (None, b\<lparr>rows := (rows b)[nat r := (rows b ! nat r)[nat c := v]]\<rparr>)"
proof -
  have r: "nat r < 19" "int (nat r) = r" and c: "nat c < 19" "int (nat c) = c"
    using on unfolding on_board_def by linarith+
  have "py_norm (rows b) (int (nat r)) = Some (nat r)"
    using wf r(1) by (intro py_norm_in_range) (simp add: wf_board_def)
  moreover have "py_norm (rows b ! nat r) (int (nat c)) = Some (nat c)"
    using wf r(1) c(1) by (intro py_norm_in_range) (simp add: wf_board_row)
  ultimately show ?thesis using r(2) c(2) by (simp add: set_cell_def)
qed

lemma wf_board_nth:
  "wf_board b \<longleftrightarrow> length (rows b) = 19 \<and> (\<forall>i < 19. length (rows b ! i) = 19)"
  by (auto simp: wf_board_def all_set_conv_all_nth)

lemma wf_board_cell_update:
  "wf_board b \<Longrightarrow> i < 19 \<Longrightarrow> wf_board (b\<lparr>rows := (rows b)[i := (rows b ! i)[j := v]]\<rparr>)"
  by (simp add: wf_board_nth nth_list_update)

lemma cell_update_nth:
  "wf_board b \<Longrightarrow> i < 19 \<Longrightarrow> j < 19 \<Longrightarrow> i' < 19 \<Longrightarrow> j' < 19 \<Longrightarrow>
   (rows b)[i := (rows b ! i)[j := v]] ! i' ! j' = (if i' = i \<and> j' = j then v else rows b ! i' ! j')"
  by (simp add: wf_board_def nth_list_update)

lemma clear_pieces:
  assumes "wf_board b" and "\<forall>p \<in> set ps. on_board (row p) (col p)"
  shows "\<exists>b'. for_each (\<lambda>piece b. set_cell b (row piece) (col piece) PS_EMPTY) ps b = (None, b') \<and>
            wf_board b' \<and> ident b' = ident b \<and>
            (\<forall>i < 19. \<forall>j < 19. rows b' ! i ! j =
               (if \<exists>p \<in> set ps. row p = int i \<and> col p = int j then PS_EMPTY else rows b ! i ! j))"
  using assms
proof (induction ps arbitrary: b)
  case Nil
  then show ?case by simp
next
  case (Cons p ps)
  let ?b1 = "b\<lparr>rows := (rows b)[nat (row p) := (rows b ! nat (row p))[nat (col p) := PS_EMPTY]]\<rparr>"
  have on: "on_board (row p) (col p)" using Cons.prems(2) by simp
  then have rc: "nat (row p) < 19" "int (nat (row p)) = row p" "nat (col p) < 19" "int (nat (col p)) = col p"
    unfolding on_board_def by linarith+
  have step: "set_cell b (row p) (col p) PS_EMPTY = (None, ?b1)"
    by (rule set_cell_on_board[OF Cons.prems(1) on])
  have wf1: "wf_board ?b1" by (rule wf_board_cell_update[OF Cons.prems(1) rc(1)])
  from Cons.IH[OF wf1] Cons.prems(2)
  obtain b' where b': "for_each (\<lambda>piece b. set_cell b (row piece) (col piece) PS_EMPTY) ps ?b1 = (None, b')"
    "wf_board b'" "ident b' = ident ?b1"
    "\<forall>i < 19. \<forall>j < 19. rows b' ! i ! j =
       (if \<exists>p \<in> set ps. row p = int i \<and> col p = int j then PS_EMPTY else rows ?b1 ! i ! j)"
    by auto
  have cells: "\<forall>i < 19. \<forall>j < 19. rows b' ! i ! j =
       (if \<exists>q \<in> set (p # ps). row q = int i \<and> col q = int j then PS_EMPTY else rows b ! i ! j)"
  proof (intro allI impI)
    fix i j :: nat assume ij: "i < 19" "j < 19"
    have "rows ?b1 ! i ! j = (if i = nat (row p) \<and> j = nat (col p) then PS_EMPTY else rows b ! i ! j)"
      using cell_update_nth[OF Cons.prems(1) rc(1) rc(3) ij] by simp
    moreover have "(i = nat (row p) \<and> j = nat (col p)) \<longleftrightarrow> (row p = int i \<and> col p = int j)"
      using rc by auto
    ultimately show "rows b' ! i ! j =
       (if \<exists>q \<in> set (p # ps). row q = int i \<and> col q = int j then PS_EMPTY else rows b ! i ! j)"
      using b'(4) ij by auto
  qed
  show ?case
    using step b'(1,2,3) cells by (intro exI[of _ b']) simp
qed

lemma clear_groups:
  assumes "wf_board b" and "\<forall>g \<in> set gs. \<forall>p \<in> set (group_pieces g). on_board (row p) (col p)"
  shows "\<exists>b'. for_each (\<lambda>grp b. if \<not> liberal grp then remove_group b grp else (None, b)) gs b = (None, b') \<and>
            wf_board b' \<and> ident b' = ident b \<and>
            (\<forall>i < 19. \<forall>j < 19. rows b' ! i ! j =
               (if \<exists>g \<in> set gs. \<not> liberal g \<and> (\<exists>p \<in> set (group_pieces g). row p = int i \<and> col p = int j)
                then PS_EMPTY else rows b ! i ! j))"
  using assms
proof (induction gs arbitrary: b)
  case Nil
  then show ?case by simp
next
  case (Cons g gs)
  let ?f = "\<lambda>grp b. if \<not> liberal grp then remove_group b grp else (None, b)"
  have "\<exists>b1. ?f g b = (None, b1) \<and> wf_board b1 \<and> ident b1 = ident b \<and>
            (\<forall>i < 19. \<forall>j < 19. rows b1 ! i ! j =
               (if \<not> liberal g \<and> (\<exists>p \<in> set (group_pieces g). row p = int i \<and> col p = int j)
                then PS_EMPTY else rows b ! i ! j))"
  proof (cases "liberal g")
    case True
    then show ?thesis using Cons.prems(1) by simp
  next
    case False
    have "\<forall>p \<in> set (group_pieces g). on_board (row p) (col p)" using Cons.prems(2) by simp
    from clear_pieces[OF Cons.prems(1) this] show ?thesis
      using False by (simp add: remove_group_def)
  qed
  then obtain b1 where b1: "?f g b = (None, b1)" "wf_board b1" "ident b1 = ident b"
    "\<forall>i < 19. \<forall>j < 19. rows b1 ! i ! j =
               (if \<not> liberal g \<and> (\<exists>p \<in> set (group_pieces g). row p = int i \<and> col p = int j)
                then PS_EMPTY else rows b ! i ! j)"
    by blast
  have "\<forall>g \<in> set gs. \<forall>p \<in> set (group_pieces g). on_board (row p) (col p)"
    using Cons.prems(2) by simp
  from Cons.IH[OF b1(2) this]
  obtain b' where b': "for_each ?f gs b1 = (None, b')" "wf_board b'" "ident b' = ident b1"
    "\<forall>i < 19. \<forall>j < 19. rows b' ! i ! j =
               (if \<exists>g \<in> set gs. \<not> liberal g \<and> (\<exists>p \<in> set (group_pieces g). row p = int i \<and> col p = int j)
                then PS_EMPTY else rows b1 ! i ! j)"
    by blast
  have "\<forall>i < 19. \<forall>j < 19. rows b' ! i ! j =
               (if \<exists>g' \<in> set (g # gs). \<not> liberal g' \<and> (\<exists>p \<in> set (group_pieces g'). row p = int i \<and> col p = int j)
                then PS_EMPTY else rows b ! i ! j)"
    using b1(4) b'(4) by auto
  then show ?case
    using b1(1,3) b'(1,2,3) by (intro exI[of _ b']) simp
qed

section \<open>The groups of a colour partition its stones\<close>

lemma set_pieces_cells:
  assumes wf: "wf_board b"
  shows "set (pieces b) =
     {p. on_board (row p) (col p) \<and> board_at b (row p) (col p) = Inr (stone (color p))}"
proof (intro set_eqI iffI)
  fix p assume p: "p \<in> set (pieces b)"
  then obtain i j where i: "i < length (rows b)" and j: "j < length (rows b ! i)"
    and pe: "p = Piece (int i) (int j) (color p)" and st: "rows b ! i ! j = stone (color p)"
    unfolding in_set_pieces by blast
  have rc: "row p = int i" "col p = int j"
    using pe by (metis Piece.sel(1), metis Piece.sel(2))
  have on: "on_board (row p) (col p)" by (rule pieces_on_board[OF wf p])
  have "board_at b (row p) (col p) = Inr (rows b ! i ! j)"
    using board_at_on_board[OF wf on] rc by simp
  then show "p \<in> {p. on_board (row p) (col p) \<and> board_at b (row p) (col p) = Inr (stone (color p))}"
    using on st by simp
next
  fix p assume "p \<in> {p. on_board (row p) (col p) \<and> board_at b (row p) (col p) = Inr (stone (color p))}"
  then have on: "on_board (row p) (col p)"
    and at: "board_at b (row p) (col p) = Inr (stone (color p))" by simp_all
  have r: "nat (row p) < 19" "int (nat (row p)) = row p"
    and c: "nat (col p) < 19" "int (nat (col p)) = col p"
    using on unfolding on_board_def by linarith+
  have "rows b ! nat (row p) ! nat (col p) = stone (color p)"
    using board_at_on_board[OF wf on] at by simp
  moreover have "nat (row p) < length (rows b)" using wf r(1) by (simp add: wf_board_def)
  moreover have "nat (col p) < length (rows b ! nat (row p))"
    using wf r(1) c(1) by (simp add: wf_board_row)
  moreover have "p = Piece (int (nat (row p))) (int (nat (col p))) (color p)"
    using r(2) c(2) by simp
  ultimately show "p \<in> set (pieces b)"
    unfolding in_set_pieces by blast
qed

lemma singleton_groups_nth:
  "i < length (filter (\<lambda>p. color p = c) (pieces b)) \<Longrightarrow>
   group_pieces (singleton_groups b c ! i) = [filter (\<lambda>p. color p = c) (pieces b) ! i]"
  by (simp add: singleton_groups_def)

lemma length_singleton_groups:
  "length (singleton_groups b c) = length (filter (\<lambda>p. color p = c) (pieces b))"
  by (simp add: singleton_groups_def)

lemma union_singleton_groups:
  "(\<Union>g \<in> set (singleton_groups b c). set (group_pieces g)) = {p \<in> set (pieces b). color p = c}"
  by (auto simp: singleton_groups_def)

text \<open>
  Claim C5.  On a 19 by 19 grid \<^verbatim>\<open>get_groups\<close> returns, for either colour, a list of groups
  such that every stone of the colour on the grid is a member of exactly one group of the list,
  and the members of all groups together are the stones of the colour on the grid.
\<close>

theorem get_groups_partition:
  assumes wf: "wf_board b"
  shows "\<exists>gs. get_groups b c = Inr gs \<and>
     (\<forall>p. on_board (row p) (col p) \<and> board_at b (row p) (col p) = Inr (stone c) \<and> color p = c \<longrightarrow>
          (\<exists>!i. i < length gs \<and> p \<in> set (group_pieces (gs ! i)))) \<and>
     (\<Union>g \<in> set gs. set (group_pieces g)) =
        {p. on_board (row p) (col p) \<and> board_at b (row p) (col p) = Inr (stone c) \<and> color p = c}"
proof -
  let ?ps = "filter (\<lambda>p. color p = c) (pieces b)"
  let ?gs = "singleton_groups b c"
  let ?S = "{p. on_board (row p) (col p) \<and> board_at b (row p) (col p) = Inr (stone c) \<and> color p = c}"
  have S: "set ?ps = ?S"
    using set_pieces_cells[OF wf] by auto
  have d: "distinct ?ps" using distinct_pieces by simp
  have one: "\<exists>!i. i < length ?gs \<and> p \<in> set (group_pieces (?gs ! i))" if "p \<in> ?S" for p
  proof -
    from that S have "p \<in> set ?ps" by simp
    then obtain i where i: "i < length ?ps" "?ps ! i = p" unfolding in_set_conv_nth by blast
    show ?thesis
    proof (rule ex1I[of _ i])
      show "i < length ?gs \<and> p \<in> set (group_pieces (?gs ! i))"
        using i by (simp add: length_singleton_groups singleton_groups_nth)
    next
      fix k assume k: "k < length ?gs \<and> p \<in> set (group_pieces (?gs ! k))"
      then have kl: "k < length ?ps" by (simp add: length_singleton_groups)
      then have "?ps ! k = p" using k by (simp add: singleton_groups_nth)
      then have "?ps ! k = ?ps ! i" using i(2) by simp
      then show "k = i" using nth_eq_iff_index_eq[OF d kl i(1)] by simp
    qed
  qed
  have "(\<Union>g \<in> set ?gs. set (group_pieces g)) = ?S"
    using union_singleton_groups[of b c] S by simp
  then show ?thesis
    using get_groups_singletons[OF wf, of c] one by (intro exI[of _ ?gs]) blast
qed

lemma get_groups_board_a:
  "get_groups board_a C_WHITE =
     Inr [Group [Piece 0 0 C_WHITE] [(1, 0), (0, 1)],
          Group [Piece 13 8 C_WHITE] [(12, 8), (14, 8), (13, 7), (13, 9)]]"
  by code_simp

theorem get_groups_partition_witness:
  "wf_board board_a \<and>
   (\<exists>gs. get_groups board_a C_WHITE = Inr gs \<and>
     (\<Union>g \<in> set gs. set (group_pieces g)) = {Piece 0 0 C_WHITE, Piece 13 8 C_WHITE})"
proof -
  from get_groups_partition[OF wf_board_a, of C_WHITE]
  obtain gs where gs: "get_groups board_a C_WHITE = Inr gs" by blast
  then have "(\<Union>g \<in> set gs. set (group_pieces g)) = {Piece 0 0 C_WHITE, Piece 13 8 C_WHITE}"
    unfolding get_groups_board_a by auto
  then show ?thesis using wf_board_a gs by blast
qed

section \<open>The liberties of an isolated stone\<close>

lemma adjacent_coordinates_distance:
  "(r', c') \<in> set (adjacent_coordinates p) \<Longrightarrow> \<bar>row p - r'\<bar> + \<bar>col p - c'\<bar> = 1"
  by (auto simp: adjacent_coordinates_def split: if_splits)

lemma length_adjacent_coordinates:
  "on_board r c \<Longrightarrow>
   length (adjacent_coordinates (Piece r c k)) =
     (if (r = 0 \<or> r = 18) \<and> (c = 0 \<or> c = 18) then 2
      else if r = 0 \<or> r = 18 \<or> c = 0 \<or> c = 18 then 3 else 4)"
  by (auto simp: adjacent_coordinates_def on_board_def)

lemma in_singleton_groups:
  "g \<in> set (singleton_groups b k) \<Longrightarrow> p \<in> set (group_pieces g) \<Longrightarrow>
   g = Group [p] (empty_neighbours b p) \<and> p \<in> set (pieces b) \<and> color p = k"
  by (auto simp: singleton_groups_def)

text \<open>
  Claim C7.  A stone on a 19 by 19 grid whose neighbouring cells on the grid are all empty
  is a member of a group returned by \<^verbatim>\<open>get_groups\<close>, and every such group has 4 liberties
  when the stone is off the edge, 2 in a corner and 3 elsewhere on the edge.
\<close>

theorem isolated_stone_liberties:
  assumes wf: "wf_board b" and on: "on_board r c"
    and st: "board_at b r c = Inr (stone k)"
    and iso: "\<forall>r' c'. on_board r' c' \<and> \<bar>r - r'\<bar> + \<bar>c - c'\<bar> = 1 \<longrightarrow> board_at b r' c' = Inr PS_EMPTY"
  shows "\<exists>gs. get_groups b k = Inr gs \<and>
      (\<exists>g \<in> set gs. Piece r c k \<in> set (group_pieces g)) \<and>
      (\<forall>g \<in> set gs. Piece r c k \<in> set (group_pieces g) \<longrightarrow>
          distinct (liberties g) \<and>
          length (liberties g) =
            (if (r = 0 \<or> r = 18) \<and> (c = 0 \<or> c = 18) then 2
             else if r = 0 \<or> r = 18 \<or> c = 0 \<or> c = 18 then 3 else (4::nat)))"
proof -
  let ?p = "Piece r c k"
  let ?n = "if (r = 0 \<or> r = 18) \<and> (c = 0 \<or> c = 18) then 2
             else if r = 0 \<or> r = 18 \<or> c = 0 \<or> c = 18 then 3 else (4::nat)"
  have p: "?p \<in> set (pieces b)"
    using on st by (simp add: set_pieces_cells[OF wf])
  have "\<forall>x \<in> set (adjacent_coordinates ?p). (case x of (r', c') \<Rightarrow> board_at b r' c' = Inr PS_EMPTY)"
  proof
    fix x assume x: "x \<in> set (adjacent_coordinates ?p)"
    obtain r' c' where rc: "x = (r', c')" by (cases x)
    have "on_board r' c'"
      using adjacent_coordinates_on_board[of ?p r' c'] on x rc by simp
    moreover have "\<bar>r - r'\<bar> + \<bar>c - c'\<bar> = 1"
      using adjacent_coordinates_distance[of r' c' ?p] x rc by simp
    ultimately show "case x of (r', c') \<Rightarrow> board_at b r' c' = Inr PS_EMPTY"
      using iso rc by simp
  qed
  then have en: "empty_neighbours b ?p = adjacent_coordinates ?p"
    by (simp add: empty_neighbours_def)
  have libs: "distinct (liberties g) \<and> length (liberties g) = ?n"
    if "g \<in> set (singleton_groups b k)" "?p \<in> set (group_pieces g)" for g
  proof -
    have "g = Group [?p] (empty_neighbours b ?p)"
      using in_singleton_groups[OF that] by simp
    then have "liberties g = adjacent_coordinates ?p" using en by simp
    then show ?thesis
      using length_adjacent_coordinates[OF on, of k] distinct_adjacent_coordinates[of ?p] by simp
  qed
  have "Group [?p] (empty_neighbours b ?p) \<in> set (singleton_groups b k)"
    using p by (simp add: singleton_groups_def image_iff)
  then have ex: "\<exists>g \<in> set (singleton_groups b k). ?p \<in> set (group_pieces g)"
    by (intro bexI[of _ "Group [?p] (empty_neighbours b ?p)"]) simp_all
  show ?thesis
    using get_groups_singletons[OF wf, of k] ex libs
    by (intro exI[of _ "singleton_groups b k"]) blast
qed

lemma board_a_around_13_8:
  "board_at board_a 13 8 = Inr PS_WHITE" "board_at board_a 12 8 = Inr PS_EMPTY"
  "board_at board_a 14 8 = Inr PS_EMPTY" "board_at board_a 13 7 = Inr PS_EMPTY"
  "board_at board_a 13 9 = Inr PS_EMPTY"
  by code_simp+

theorem isolated_stone_liberties_witness:
  "wf_board board_a \<and> on_board 13 8 \<and> board_at board_a 13 8 = Inr (stone C_WHITE) \<and>
   (\<exists>gs. get_groups board_a C_WHITE = Inr gs \<and>
      (\<exists>g \<in> set gs. Piece 13 8 C_WHITE \<in> set (group_pieces g)) \<and>
      (\<forall>g \<in> set gs. Piece 13 8 C_WHITE \<in> set (group_pieces g) \<longrightarrow>
          distinct (liberties g) \<and> length (liberties g) = 4))"
proof -
  have on: "on_board 13 8" by (simp add: on_board_def)
  have st: "board_at board_a 13 8 = Inr (stone C_WHITE)"
    using board_a_around_13_8(1) by (simp add: stone_def)
  have iso: "\<forall>r' c'. on_board r' c' \<and> \<bar>13 - r'\<bar> + \<bar>8 - c'\<bar> = 1 \<longrightarrow>
      board_at board_a r' c' = Inr PS_EMPTY"
  proof (intro allI impI)
    fix r' c' :: int assume "on_board r' c' \<and> \<bar>13 - r'\<bar> + \<bar>8 - c'\<bar> = 1"
    then have "(r' = 12 \<and> c' = 8) \<or> (r' = 14 \<and> c' = 8) \<or> (r' = 13 \<and> c' = 7) \<or> (r' = 13 \<and> c' = 9)"
      by arith
    then show "board_at board_a r' c' = Inr PS_EMPTY"
      using board_a_around_13_8 by auto
  qed
  show ?thesis
    using wf_board_a on st isolated_stone_liberties[OF wf_board_a on st iso] by simp
qed

section \<open>Capture resolution on a well-formed board\<close>

lemma remove_components_static_cells:
  assumes wf: "wf_board b"
  shows "\<exists>b'. remove_components_static b k = (None, b') \<and> wf_board b' \<and> ident b' = ident b \<and>
            (\<forall>i < 19. \<forall>j < 19. rows b' ! i ! j =
               (if rows b ! i ! j = stone k \<and> empty_neighbours b (Piece (int i) (int j) k) = []
                then PS_EMPTY else rows b ! i ! j))"
proof -
  let ?gs = "singleton_groups b k"
  have on: "\<forall>g \<in> set ?gs. \<forall>p \<in> set (group_pieces g). on_board (row p) (col p)"
    using in_singleton_groups[of _ b k] pieces_on_board[OF wf] by blast
  have dead: "(\<exists>g \<in> set ?gs. \<not> liberal g \<and> (\<exists>p \<in> set (group_pieces g). row p = int i \<and> col p = int j))
      \<longleftrightarrow> rows b ! i ! j = stone k \<and> empty_neighbours b (Piece (int i) (int j) k) = []"
    (is "?L \<longleftrightarrow> ?R") if ij: "i < 19" "j < 19" for i j
  proof -
    let ?p = "Piece (int i) (int j) k"
    have onp: "on_board (int i) (int j)" using ij by (simp add: on_board_def)
    have cell: "?p \<in> set (pieces b) \<longleftrightarrow> rows b ! i ! j = stone k"
      using onp board_at_in_range[OF wf ij] by (simp add: set_pieces_cells[OF wf])
    show ?thesis
    proof
      assume ?L
      then obtain g p where g: "g \<in> set ?gs" "\<not> liberal g" and p: "p \<in> set (group_pieces g)"
        "row p = int i" "col p = int j" by blast
      from in_singleton_groups[OF g(1) p(1)]
      have g': "g = Group [p] (empty_neighbours b p)" and pb: "p \<in> set (pieces b)" and "color p = k"
        by simp_all
      then have "p = ?p" using p(2,3) by (cases p) simp
      then show ?R using g' g(2) pb cell by (simp add: liberal_def)
    next
      assume r: ?R
      then have "?p \<in> set (pieces b)" using cell by simp
      then have "Group [?p] (empty_neighbours b ?p) \<in> set ?gs"
        by (simp add: singleton_groups_def image_iff)
      moreover have "\<not> liberal (Group [?p] (empty_neighbours b ?p))"
        using r by (simp add: liberal_def)
      ultimately show ?L by (intro bexI[of _ "Group [?p] (empty_neighbours b ?p)"]) simp_all
    qed
  qed
  from clear_groups[OF wf on]
  obtain b' where b': "for_each (\<lambda>grp b. if \<not> liberal grp then remove_group b grp else (None, b)) ?gs b = (None, b')"
    "wf_board b'" "ident b' = ident b"
    "\<forall>i < 19. \<forall>j < 19. rows b' ! i ! j =
               (if \<exists>g \<in> set ?gs. \<not> liberal g \<and> (\<exists>p \<in> set (group_pieces g). row p = int i \<and> col p = int j)
                then PS_EMPTY else rows b ! i ! j)"
    by blast
  have "\<forall>i < 19. \<forall>j < 19. rows b' ! i ! j =
               (if rows b ! i ! j = stone k \<and> empty_neighbours b (Piece (int i) (int j) k) = []
                then PS_EMPTY else rows b ! i ! j)"
    using b'(4) dead by simp
  moreover have "remove_components_static b k = (None, b')"
    using b'(1) get_groups_singletons[OF wf, of k] by (simp add: remove_components_static_def)
  ultimately show ?thesis using b'(2,3) by blast
qed

lemma fill_new_piece_on_board:
  assumes wf: "wf_board b" and on: "on_board r c"
  shows "\<exists>b'. fill_new_piece b r c k = (None, b') \<and> wf_board b' \<and> ident b' = ident b \<and>
           rows b' ! nat r ! nat c = stone k"
proof -
  let ?b' = "b\<lparr>rows := (rows b)[nat r := (rows b ! nat r)[nat c := stone k]]\<rparr>"
  have rc: "nat r < 19" "nat c < 19" using on unfolding on_board_def by linarith+
  have "fill_new_piece b r c k = (None, ?b')"
    using set_cell_on_board[OF wf on, of "stone k"]
    by (cases k) (simp_all add: fill_new_piece_def stone_def)
  moreover have "wf_board ?b'" by (rule wf_board_cell_update[OF wf rc(1)])
  moreover have "rows ?b' ! nat r ! nat c = stone k"
    using cell_update_nth[OF wf rc rc] by simp
  ultimately show ?thesis by (intro exI[of _ ?b']) simp
qed

section \<open>Moves that leave the placed stone without liberties\<close>

lemma board_commit: "board (commit h s) = board s"
  by (simp add: commit_def Let_def)

lemma turn_commit: "turn (commit h s) = COLOR_REVERSE (turn s)"
  by (simp add: commit_def Let_def)

text \<open>
  Claim C2 says that a move after which no opponent stone is captured and the group of the
  placed stone has no liberty is rejected, the board staying as it was.  In the state reached
  by \<open>suicide_prefix\<close> Black plays (0, 1): no white stone is captured, the groups of the
  black stones at (0, 0) and (0, 1) have no liberties, and \<^verbatim>\<open>update\<close> raises nothing and
  takes the black stone at (0, 0) off the board.  The position that results has not occurred
  before, so ko detection has nothing to reject either.
\<close>

theorem suicide_move_not_rejected:
  "board_at (board suicide_state) 0 1 = Inr PS_EMPTY \<and>
   turn suicide_state = C_BLACK \<and>
   rows (snd (remove_components_static
             (snd (fill_new_piece (board suicide_state) 0 1 C_BLACK)) C_WHITE)) =
     rows (snd (fill_new_piece (board suicide_state) 0 1 C_BLACK)) \<and>
   get_groups (snd (remove_components_static
             (snd (fill_new_piece (board suicide_state) 0 1 C_BLACK)) C_WHITE)) C_BLACK =
     Inr [Group [Piece 0 0 C_BLACK] [], Group [Piece 0 1 C_BLACK] [],
          Group [Piece 10 10 C_BLACK] [(9, 10), (11, 10), (10, 9), (10, 11)],
          Group [Piece 10 12 C_BLACK] [(9, 12), (11, 12), (10, 11), (10, 13)]] \<and>
   fst (update const_hash (Move 0 1) suicide_state) = None \<and>
   board_at (board suicide_state) 0 0 = Inr PS_BLACK \<and>
   board_at (board (snd (update const_hash (Move 0 1) suicide_state))) 0 0 = Inr PS_EMPTY"
  by code_simp

text \<open>
  Claim C2, as amended.  On a 19 by 19 grid, a move onto an empty cell after which no opponent
  stone is captured and the group of the placed stone has no liberty is not rejected for that:
  unless ko detection rejects it, \<^verbatim>\<open>update\<close> raises nothing, the capture resolution for the
  mover's colour takes the placed stone off the board again, the pass counter stays and the
  turn passes to the opponent.
\<close>

theorem suicide_move_accepted:
  assumes wf: "wf_board (board s)" and on: "on_board r c"
    and empty: "board_at (board s) r c = Inr PS_EMPTY"
    and no_ko: "detect_ko h s r c = Inr False"
    and b1: "b1 = snd (fill_new_piece (board s) r c (turn s))"
    and b2: "b2 = snd (remove_components_static b1 (COLOR_REVERSE (turn s)))"
    and no_capture: "rows b2 = rows b1"
    and own: "get_groups b2 (turn s) = Inr gs" "g \<in> set gs"
      "Piece r c (turn s) \<in> set (group_pieces g)" "\<not> liberal g"
  shows "fst (update h (Move r c) s) = None \<and>
         board_at (board (snd (update h (Move r c) s))) r c = Inr PS_EMPTY \<and>
         turn (snd (update h (Move r c) s)) = COLOR_REVERSE (turn s) \<and>
         num_of_passes (snd (update h (Move r c) s)) = num_of_passes s"
proof -
  have rc: "nat r < 19" "nat c < 19" "int (nat r) = r" "int (nat c) = c"
    using on unfolding on_board_def by linarith+
  from fill_new_piece_on_board[OF wf on, of "turn s"]
  have f1: "fill_new_piece (board s) r c (turn s) = (None, b1)" and wf1: "wf_board b1"
    using b1 by auto
  from remove_components_static_cells[OF wf1, of "COLOR_REVERSE (turn s)"]
  have f2: "remove_components_static b1 (COLOR_REVERSE (turn s)) = (None, b2)" and wf2: "wf_board b2"
    using b2 by auto
  from remove_components_static_cells[OF wf2, of "turn s"]
  obtain b3 where f3: "remove_components_static b2 (turn s) = (None, b3)" and wf3: "wf_board b3"
    and cells: "\<forall>i < 19. \<forall>j < 19. rows b3 ! i ! j =
               (if rows b2 ! i ! j = stone (turn s) \<and>
                   empty_neighbours b2 (Piece (int i) (int j) (turn s)) = []
                then PS_EMPTY else rows b2 ! i ! j)"
    by blast
  have gs: "gs = singleton_groups b2 (turn s)"
    using own(1) get_groups_singletons[OF wf2, of "turn s"] by simp
  from in_singleton_groups[OF own(2)[unfolded gs] own(3)]
  have g: "g = Group [Piece r c (turn s)] (empty_neighbours b2 (Piece r c (turn s)))"
    and p: "Piece r c (turn s) \<in> set (pieces b2)" by simp_all
  have dead: "empty_neighbours b2 (Piece r c (turn s)) = []"
    using own(4) g by (simp add: liberal_def)
  have "board_at b2 r c = Inr (stone (turn s))"
    using p by (simp add: set_pieces_cells[OF wf2])
  then have "rows b2 ! nat r ! nat c = stone (turn s)"
    using board_at_on_board[OF wf2 on] by simp
  then have "rows b3 ! nat r ! nat c = PS_EMPTY"
    using cells rc dead by simp
  then have at3: "board_at b3 r c = Inr PS_EMPTY"
    using board_at_on_board[OF wf3 on] by simp
  have occ: "is_position_occupied (board s) r c = Inr False"
    using empty by (simp add: is_position_occupied_def)
  have "update h (Move r c) s = (None, commit h (s\<lparr>board := b3\<rparr>))"
    using occ no_ko f1 f2 f3 by (simp add: update_def)
  then show ?thesis
    using at3 by (simp add: board_commit turn_commit num_of_passes_commit)
qed

lemma suicide_state_facts:
  "wf_board (board suicide_state)"
  "turn suicide_state = C_BLACK"
  "board_at (board suicide_state) 0 1 = Inr PS_EMPTY"
  "detect_ko const_hash suicide_state 0 1 = Inr False"
  by code_simp+

lemma suicide_state_after_placing:
  "rows (snd (remove_components_static
             (snd (fill_new_piece (board suicide_state) 0 1 C_BLACK)) C_WHITE)) =
   rows (snd (fill_new_piece (board suicide_state) 0 1 C_BLACK))"
  by code_simp

lemma suicide_state_groups:
  "get_groups (snd (remove_components_static
             (snd (fill_new_piece (board suicide_state) 0 1 C_BLACK)) C_WHITE)) C_BLACK =
     Inr [Group [Piece 0 0 C_BLACK] [], Group [Piece 0 1 C_BLACK] [],
          Group [Piece 10 10 C_BLACK] [(9, 10), (11, 10), (10, 9), (10, 11)],
          Group [Piece 10 12 C_BLACK] [(9, 12), (11, 12), (10, 11), (10, 13)]]"
  by code_simp

theorem suicide_move_accepted_witness:
  "wf_board (board suicide_state) \<and> on_board 0 1 \<and>
   board_at (board suicide_state) 0 1 = Inr PS_EMPTY \<and>
   detect_ko const_hash suicide_state 0 1 = Inr False \<and>
   \<not> liberal (Group [Piece 0 1 C_BLACK] []) \<and>
   fst (update const_hash (Move 0 1) suicide_state) = None \<and>
   board_at (board (snd (update const_hash (Move 0 1) suicide_state))) 0 1 = Inr PS_EMPTY \<and>
   turn (snd (update const_hash (Move 0 1) suicide_state)) = C_WHITE \<and>
   num_of_passes (snd (update const_hash (Move 0 1) suicide_state)) = num_of_passes suicide_state"
proof -
  let ?b1 = "snd (fill_new_piece (board suicide_state) 0 1 (turn suicide_state))"
  let ?b2 = "snd (remove_components_static ?b1 (COLOR_REVERSE (turn suicide_state)))"
  have on: "on_board 0 1" by (simp add: on_board_def)
  have nc: "rows ?b2 = rows ?b1"
    using suicide_state_after_placing by (simp add: suicide_state_facts(2) COLOR_REVERSE_def)
  have gs: "get_groups ?b2 (turn suicide_state) =
     Inr [Group [Piece 0 0 C_BLACK] [], Group [Piece 0 1 C_BLACK] [],
          Group [Piece 10 10 C_BLACK] [(9, 10), (11, 10), (10, 9), (10, 11)],
          Group [Piece 10 12 C_BLACK] [(9, 12), (11, 12), (10, 11), (10, 13)]]"
    using suicide_state_groups by (simp add: suicide_state_facts(2) COLOR_REVERSE_def)
  have g: "Group [Piece 0 1 C_BLACK] [] \<in> set [Group [Piece 0 0 C_BLACK] [], Group [Piece 0 1 C_BLACK] [],
          Group [Piece 10 10 C_BLACK] [(9, 10), (11, 10), (10, 9), (10, 11)],
          Group [Piece 10 12 C_BLACK] [(9, 12), (11, 12), (10, 11), (10, 13)]]"
    by simp
  have p: "Piece 0 1 (turn suicide_state) \<in> set (group_pieces (Group [Piece 0 1 C_BLACK] []))"
    by (simp add: suicide_state_facts(2))
  have l: "\<not> liberal (Group [Piece 0 1 C_BLACK] [])" by (simp add: liberal_def)
  show ?thesis
    using suicide_move_accepted[OF suicide_state_facts(1) on suicide_state_facts(3,4) refl refl
        nc gs g p l]
      suicide_state_facts on l
    by (simp add: COLOR_REVERSE_def)
qed

section \<open>Ko detection compares identities\<close>

lemma board_in_fresh:
  "\<forall>p \<in> set ps. ident p < i \<Longrightarrow> ident x = i \<Longrightarrow> board_in h x ps = False"
  by (auto simp: board_in_def board_eq_def list_ex_iff)

lemma ident_set_cell: "ident (snd (set_cell b r c v)) = ident b"
  by (simp add: set_cell_def split: option.splits)

lemma ident_for_each:
  "(\<And>x s. ident (snd (f x s)) = ident s) \<Longrightarrow> ident (snd (for_each f xs s)) = ident s"
proof (induction xs arbitrary: s)
  case Nil
  then show ?case by simp
next
  case (Cons x xs)
  obtain e s' where fx: "f x s = (e, s')" by (cases "f x s")
  then have "ident s' = ident s" using Cons.prems[of x s] by simp
  then show ?case using fx Cons.IH[OF Cons.prems, of s'] by (cases e) simp_all
qed

lemma ident_remove_group: "ident (snd (remove_group b g)) = ident b"
  unfolding remove_group_def by (rule ident_for_each) (rule ident_set_cell)

lemma ident_remove_components_static: "ident (snd (remove_components_static b k)) = ident b"
proof (cases "get_groups b k")
  case (Inl e)
  then show ?thesis by (simp add: remove_components_static_def)
next
  case (Inr gs)
  have "ident (snd (for_each (\<lambda>grp b. if \<not> liberal grp then remove_group b grp else (None, b)) gs b))
      = ident b"
    by (rule ident_for_each) (simp add: ident_remove_group)
  then show ?thesis using Inr by (simp add: remove_components_static_def)
qed

lemma ident_fill_new_piece: "ident (snd (fill_new_piece b r c k)) = ident b"
  by (simp add: fill_new_piece_def ident_set_cell)

lemma detect_ko_cases:
  "detect_ko h s r c =
     (case fill_new_piece (copy (next_ident s) (board s)) r c (turn s) of
        (Some e, _) \<Rightarrow> Inl e
      | (None, b1) \<Rightarrow>
          (case remove_components_static b1 (COLOR_REVERSE (turn s)) of
             (Some e, _) \<Rightarrow> Inl e
           | (None, b2) \<Rightarrow>
               (case remove_components_static b2 (turn s) of
                  (Some e, _) \<Rightarrow> Inl e
                | (None, b3) \<Rightarrow> Inr (board_in h b3 (past_boards s)))))"
  by (simp add: detect_ko_def Let_def)

text \<open>
  In every state in which the boards of the history are older than the next object, and so
  in every state reached from the initial one, \<^verbatim>\<open>detect_ko\<close> does not return \<^verbatim>\<open>True\<close>: the
  board it looks up is a new object, and the lookup compares identities.
\<close>

lemma detect_ko_never_fires:
  assumes "fresh_idents s"
  shows "detect_ko h s r c \<noteq> Inr True"
proof -
  obtain e1 b1 where f1: "fill_new_piece (copy (next_ident s) (board s)) r c (turn s) = (e1, b1)"
    by (cases "fill_new_piece (copy (next_ident s) (board s)) r c (turn s)")
  obtain e2 b2 where f2: "remove_components_static b1 (COLOR_REVERSE (turn s)) = (e2, b2)"
    by (cases "remove_components_static b1 (COLOR_REVERSE (turn s))")
  obtain e3 b3 where f3: "remove_components_static b2 (turn s) = (e3, b3)"
    by (cases "remove_components_static b2 (turn s)")
  have "ident b1 = next_ident s"
    using ident_fill_new_piece[of "copy (next_ident s) (board s)" r c "turn s"] f1
    by (simp add: copy_def)
  then have "ident b2 = next_ident s"
    using ident_remove_components_static[of b1 "COLOR_REVERSE (turn s)"] f2 by simp
  then have "ident b3 = next_ident s"
    using ident_remove_components_static[of b2 "turn s"] f3 by simp
  then have "board_in h b3 (past_boards s) = False"
    using assms by (intro board_in_fresh) (simp_all add: fresh_idents_def)
  then show ?thesis
    using f1 f2 f3 by (cases e1; cases e2; cases e3) (simp_all add: detect_ko_cases)
qed

lemma detect_ko_hash_irrelevant:
  assumes "fresh_idents s"
  shows "detect_ko h s r c = detect_ko h' s r c"
proof -
  obtain e1 b1 where f1: "fill_new_piece (copy (next_ident s) (board s)) r c (turn s) = (e1, b1)"
    by (cases "fill_new_piece (copy (next_ident s) (board s)) r c (turn s)")
  obtain e2 b2 where f2: "remove_components_static b1 (COLOR_REVERSE (turn s)) = (e2, b2)"
    by (cases "remove_components_static b1 (COLOR_REVERSE (turn s))")
  obtain e3 b3 where f3: "remove_components_static b2 (turn s) = (e3, b3)"
    by (cases "remove_components_static b2 (turn s)")
  have "ident b1 = next_ident s"
    using ident_fill_new_piece[of "copy (next_ident s) (board s)" r c "turn s"] f1
    by (simp add: copy_def)
  then have "ident b2 = next_ident s"
    using ident_remove_components_static[of b1 "COLOR_REVERSE (turn s)"] f2 by simp
  then have "ident b3 = next_ident s"
    using ident_remove_components_static[of b2 "turn s"] f3 by simp
  then have "board_in h b3 (past_boards s) = False" "board_in h' b3 (past_boards s) = False"
    using assms by (simp_all add: board_in_fresh fresh_idents_def)
  then show ?thesis
    using f1 f2 f3 by (cases e1; cases e2; cases e3) (simp_all add: detect_ko_cases)
qed

lemma commit_fresh:
  assumes "fresh_idents s"
  shows "commit h s =
     s\<lparr>past_boards := past_boards s @ [copy (next_ident s) (board s)],
       turn := COLOR_REVERSE (turn s), next_ident := Suc (next_ident s)\<rparr>"
proof -
  have "board_in h (copy (next_ident s) (board s)) (past_boards s) = False"
    using assms by (intro board_in_fresh) (simp_all add: fresh_idents_def copy_def)
  then show ?thesis by (simp add: commit_def Let_def)
qed

lemma fresh_idents_board: "fresh_idents (s\<lparr>board := b\<rparr>) = fresh_idents s"
  by (simp add: fresh_idents_def)

lemma fresh_idents_num_of_passes: "fresh_idents (s\<lparr>num_of_passes := n\<rparr>) = fresh_idents s"
  by (simp add: fresh_idents_def)

lemma fresh_idents_commit:
  assumes "fresh_idents s"
  shows "fresh_idents (commit h s)"
  using assms unfolding commit_fresh[OF assms]
  by (auto simp: fresh_idents_def copy_def less_Suc_eq)

lemma fresh_idents_update:
  assumes "fresh_idents s"
  shows "fresh_idents (snd (update h a s))"
proof (cases a)
  case Pass
  then show ?thesis
    using assms by (simp add: update_def fresh_idents_commit fresh_idents_num_of_passes)
next
  case (Move r c)
  then show ?thesis
    using assms
    by (simp add: update_def fresh_idents_commit fresh_idents_board
        split: sum.splits bool.splits prod.splits option.splits)
next
  case OtherAction
  then show ?thesis using assms by (simp add: update_def)
qed

lemma update_hash_irrelevant:
  assumes "fresh_idents s"
  shows "update h a s = update h' a s"
proof (cases a)
  case Pass
  have "fresh_idents (s\<lparr>num_of_passes := num_of_passes s + 1\<rparr>)"
    using assms by (simp add: fresh_idents_num_of_passes)
  then show ?thesis using Pass by (simp add: update_def commit_fresh)
next
  case (Move r c)
  have c: "commit h (s\<lparr>board := b\<rparr>) = commit h' (s\<lparr>board := b\<rparr>)" for b
    using assms by (simp add: commit_fresh fresh_idents_board)
  show ?thesis
    using Move detect_ko_hash_irrelevant[OF assms, of h r c h'] c
    by (simp add: update_def split: sum.splits bool.splits prod.splits option.splits)
next
  case OtherAction
  then show ?thesis by (simp add: update_def)
qed

lemma apply_all_hash_irrelevant:
  "fresh_idents s \<Longrightarrow> apply_all h as s = apply_all h' as s"
proof (induction as arbitrary: s)
  case Nil
  then show ?case by simp
next
  case (Cons a as)
  have "update h a s = update h' a s" by (rule update_hash_irrelevant[OF Cons.prems])
  moreover have "fresh_idents (snd (update h' a s))" by (rule fresh_idents_update[OF Cons.prems])
  ultimately show ?case using Cons.IH[of "snd (update h' a s)"] by simp
qed

lemma fresh_idents_apply_all:
  "fresh_idents s \<Longrightarrow> fresh_idents (apply_all h as s)"
  by (induction as arbitrary: s) (simp_all add: fresh_idents_update)

lemma fresh_idents_init: "fresh_idents GameState_init"
  by (simp add: fresh_idents_def GameState_init_def)

section \<open>Actions after the game has ended\<close>

text \<open>
  Claim C10.  \<^verbatim>\<open>update\<close> never rejects an action because the game has ended.  What a call
  does is the same whatever the pass counter is: the exception raised, if any, and every field
  of the state it leaves, the counter itself apart, which a pass increments.  So in a state
  that has ended a pass succeeds, leaves the counter at 3, a state that has not ended, records
  the snapshot and passes the turn; and a move onto an empty cell that ko detection lets
  through places the stone, resolves the captures of both colours, records the snapshot and
  passes the turn.
\<close>

theorem update_ignores_game_end:
  "update h a (s\<lparr>num_of_passes := n\<rparr>) =
     (fst (update h a s),
      (snd (update h a s))\<lparr>num_of_passes := n + (if a = Pass then 1 else 0)\<rparr>) \<and>
   (is_ended s \<longrightarrow>
      fst (update h Pass s) = None \<and>
      num_of_passes (snd (update h Pass s)) = 3 \<and>
      \<not> is_ended (snd (update h Pass s))) \<and>
   (is_ended s \<and> fresh_idents s \<longrightarrow>
      update h Pass s =
        (None, s\<lparr>num_of_passes := 3,
                 past_boards := past_boards s @ [copy (next_ident s) (board s)],
                 turn := COLOR_REVERSE (turn s),
                 next_ident := Suc (next_ident s)\<rparr>)) \<and>
   (is_ended s \<and> fresh_idents s \<and>
    is_position_occupied (board s) r c = Inr False \<and>
    detect_ko h s r c = Inr False \<and>
    fill_new_piece (board s) r c (turn s) = (None, b1) \<and>
    remove_components_static b1 (COLOR_REVERSE (turn s)) = (None, b2) \<and>
    remove_components_static b2 (turn s) = (None, b3) \<longrightarrow>
      update h (Move r c) s =
        (None, s\<lparr>board := b3,
                 past_boards := past_boards s @ [copy (next_ident s) b3],
                 turn := COLOR_REVERSE (turn s),
                 next_ident := Suc (next_ident s)\<rparr>))"
proof (intro conjI impI)
  show "update h a (s\<lparr>num_of_passes := n\<rparr>) =
     (fst (update h a s),
      (snd (update h a s))\<lparr>num_of_passes := n + (if a = Pass then 1 else 0)\<rparr>)"
    by (rule update_num_of_passes)
next
  assume "is_ended s"
  then show "fst (update h Pass s) = None" by (simp add: update_def)
next
  assume "is_ended s"
  then show "num_of_passes (snd (update h Pass s)) = 3"
    by (simp add: num_of_passes_update is_ended_def)
next
  assume "is_ended s"
  then show "\<not> is_ended (snd (update h Pass s))"
    by (simp add: num_of_passes_update is_ended_def)
next
  assume a: "is_ended s \<and> fresh_idents s"
  then have "fresh_idents (s\<lparr>num_of_passes := num_of_passes s + 1\<rparr>)"
    by (simp add: fresh_idents_num_of_passes)
  then show "update h Pass s =
        (None, s\<lparr>num_of_passes := 3,
                 past_boards := past_boards s @ [copy (next_ident s) (board s)],
                 turn := COLOR_REVERSE (turn s),
                 next_ident := Suc (next_ident s)\<rparr>)"
    using a by (simp add: update_def commit_fresh is_ended_def)
next
  assume a: "is_ended s \<and> fresh_idents s \<and>
    is_position_occupied (board s) r c = Inr False \<and>
    detect_ko h s r c = Inr False \<and>
    fill_new_piece (board s) r c (turn s) = (None, b1) \<and>
    remove_components_static b1 (COLOR_REVERSE (turn s)) = (None, b2) \<and>
    remove_components_static b2 (turn s) = (None, b3)"
  then have "fresh_idents (s\<lparr>board := b3\<rparr>)" by (simp add: fresh_idents_board)
  then show "update h (Move r c) s =
        (None, s\<lparr>board := b3,
                 past_boards := past_boards s @ [copy (next_ident s) b3],
                 turn := COLOR_REVERSE (turn s),
                 next_ident := Suc (next_ident s)\<rparr>)"
    using a by (simp add: update_def commit_fresh)
qed

lemma state_after_two_passes_facts:
  "is_ended state_after_two_passes"
  "turn state_after_two_passes = C_BLACK"
  "is_position_occupied (board state_after_two_passes) 3 3 = Inr False"
  "detect_ko const_hash state_after_two_passes 3 3 = Inr False"
  by code_simp+

lemma state_after_two_passes_move:
  "fill_new_piece (board state_after_two_passes) 3 3 C_BLACK =
     (None, snd (fill_new_piece (board state_after_two_passes) 3 3 C_BLACK))"
  "remove_components_static (snd (fill_new_piece (board state_after_two_passes) 3 3 C_BLACK)) C_WHITE =
     (None, snd (fill_new_piece (board state_after_two_passes) 3 3 C_BLACK))"
  "remove_components_static (snd (fill_new_piece (board state_after_two_passes) 3 3 C_BLACK)) C_BLACK =
     (None, snd (fill_new_piece (board state_after_two_passes) 3 3 C_BLACK))"
  "board_at (snd (fill_new_piece (board state_after_two_passes) 3 3 C_BLACK)) 3 3 = Inr PS_BLACK"
  by code_simp+

theorem update_ignores_game_end_witness:
  "is_ended state_after_two_passes \<and>
   fresh_idents state_after_two_passes \<and>
   is_position_occupied (board state_after_two_passes) 3 3 = Inr False \<and>
   detect_ko const_hash state_after_two_passes 3 3 = Inr False \<and>
   fst (update const_hash Pass state_after_two_passes) = None \<and>
   num_of_passes (snd (update const_hash Pass state_after_two_passes)) = 3 \<and>
   \<not> is_ended (snd (update const_hash Pass state_after_two_passes)) \<and>
   turn (snd (update const_hash Pass state_after_two_passes)) = C_WHITE \<and>
   length (past_boards (snd (update const_hash Pass state_after_two_passes))) =
     Suc (length (past_boards state_after_two_passes)) \<and>
   fst (update const_hash (Move 3 3) state_after_two_passes) = None \<and>
   board_at (board (snd (update const_hash (Move 3 3) state_after_two_passes))) 3 3 = Inr PS_BLACK \<and>
   turn (snd (update const_hash (Move 3 3) state_after_two_passes)) = C_WHITE \<and>
   length (past_boards (snd (update const_hash (Move 3 3) state_after_two_passes))) =
     Suc (length (past_boards state_after_two_passes))"
proof -
  let ?s = "state_after_two_passes"
  let ?b = "snd (fill_new_piece (board ?s) 3 3 C_BLACK)"
  have e: "is_ended ?s" by (rule state_after_two_passes_facts(1))
  have fr: "fresh_idents ?s"
    unfolding state_after_two_passes_def by (rule fresh_idents_apply_all[OF fresh_idents_init])
  have f1: "fill_new_piece (board ?s) 3 3 (turn ?s) = (None, ?b)"
    using state_after_two_passes_move(1) by (simp add: state_after_two_passes_facts(2))
  have f2: "remove_components_static ?b (COLOR_REVERSE (turn ?s)) = (None, ?b)"
    using state_after_two_passes_move(2)
    by (simp add: state_after_two_passes_facts(2) COLOR_REVERSE_def)
  have f3: "remove_components_static ?b (turn ?s) = (None, ?b)"
    using state_after_two_passes_move(3) by (simp add: state_after_two_passes_facts(2))
  note t = update_ignores_game_end[where h = const_hash and a = Pass and s = ?s and n = 0
      and r = 3 and c = 3 and ?b1.0 = ?b and ?b2.0 = ?b and ?b3.0 = ?b]
  have p: "update const_hash Pass ?s =
        (None, ?s\<lparr>num_of_passes := 3,
                 past_boards := past_boards ?s @ [copy (next_ident ?s) (board ?s)],
                 turn := COLOR_REVERSE (turn ?s),
                 next_ident := Suc (next_ident ?s)\<rparr>)"
    using t e fr by blast
  have m: "update const_hash (Move 3 3) ?s =
        (None, ?s\<lparr>board := ?b,
                 past_boards := past_boards ?s @ [copy (next_ident ?s) ?b],
                 turn := COLOR_REVERSE (turn ?s),
                 next_ident := Suc (next_ident ?s)\<rparr>)"
    using t e fr state_after_two_passes_facts(3,4) f1 f2 f3 by blast
  show ?thesis
    unfolding p m
    using e fr state_after_two_passes_facts(2,3,4) state_after_two_passes_move(4)
    by (simp add: COLOR_REVERSE_def is_ended_def)
qed


section \<open>A repeated position is accepted\<close>

lemma ko_state_facts:
  "board_at (board ko_state) 1 1 = Inr PS_EMPTY"
  "detect_ko const_hash ko_state 1 1 = Inr False"
  "fst (update const_hash (Move 1 1) ko_state) = None"
  "rows (board (snd (update const_hash (Move 1 1) ko_state))) = rows (past_boards ko_state ! 7)"
  by code_simp+

text \<open>
  Claim C1 says that a move whose resulting board equals a snapshot of the position history
  fails.  In the state reached by \<open>ko_prefix\<close> White retakes at (1, 1): the resulting board
  is, cell by cell, the board stored after the eighth action, and yet \<^verbatim>\<open>detect_ko\<close> returns
  false and \<^verbatim>\<open>update\<close> raises nothing, for every hash function of strings.
\<close>

theorem ko_recapture_accepted:
  "board_at (board (apply_all h ko_prefix GameState_init)) 1 1 = Inr PS_EMPTY \<and>
   detect_ko h (apply_all h ko_prefix GameState_init) 1 1 = Inr False \<and>
   fst (update h (Move 1 1) (apply_all h ko_prefix GameState_init)) = None \<and>
   rows (board (snd (update h (Move 1 1) (apply_all h ko_prefix GameState_init)))) =
     rows (past_boards (apply_all h ko_prefix GameState_init) ! 7)"
proof -
  have s: "apply_all h ko_prefix GameState_init = ko_state"
    unfolding ko_state_def by (rule apply_all_hash_irrelevant[OF fresh_idents_init])
  have fr: "fresh_idents ko_state"
    unfolding ko_state_def by (rule fresh_idents_apply_all[OF fresh_idents_init])
  have u: "update h (Move 1 1) ko_state = update const_hash (Move 1 1) ko_state"
    by (rule update_hash_irrelevant[OF fr])
  have d: "detect_ko h ko_state 1 1 = detect_ko const_hash ko_state 1 1"
    by (rule detect_ko_hash_irrelevant[OF fr])
  show ?thesis unfolding s u d using ko_state_facts by simp
qed

section \<open>A stone of a chain that has liberties is captured\<close>

lemma capture_state_facts:
  "board_at (board capture_state) 0 0 = Inr PS_WHITE"
  "board_at (board capture_state) 0 1 = Inr PS_EMPTY"
  "board_at (board capture_state) 0 2 = Inr PS_WHITE"
  "board_at (board capture_state) 0 3 = Inr PS_WHITE"
  "board_at (board capture_state) 1 3 = Inr PS_EMPTY"
  "fst (update const_hash (Move 0 1) capture_state) = None"
  "board_at (board (snd (update const_hash (Move 0 1) capture_state))) 0 0 = Inr PS_EMPTY"
  "board_at (board (snd (update const_hash (Move 0 1) capture_state))) 0 2 = Inr PS_EMPTY"
  "board_at (board (snd (update const_hash (Move 0 1) capture_state))) 0 3 = Inr PS_WHITE"
  "board_at (board (snd (update const_hash (Move 0 1) capture_state))) 1 3 = Inr PS_EMPTY"
  by code_simp+

text \<open>
  Claim C4 says that capture resolution removes the opponent group left without liberties and
  no stone of a group that still has one.  In the state reached by \<open>capture_prefix\<close> Black
  plays (0, 1).  The white stone at (0, 0) loses its last liberty and is removed.  The white
  stone at (0, 2) is removed too, although it is connected to the white stone at (0, 3),
  whose neighbour (1, 3) is empty before and after the move: \<^verbatim>\<open>get_groups\<close> puts every stone
  in a group of its own, so the liberty of the chain does not count for the stone at (0, 2).
\<close>

theorem capture_removes_stone_of_living_chain:
  "board_at (board (apply_all h capture_prefix GameState_init)) 0 0 = Inr PS_WHITE \<and>
   board_at (board (apply_all h capture_prefix GameState_init)) 0 1 = Inr PS_EMPTY \<and>
   board_at (board (apply_all h capture_prefix GameState_init)) 0 2 = Inr PS_WHITE \<and>
   board_at (board (apply_all h capture_prefix GameState_init)) 0 3 = Inr PS_WHITE \<and>
   board_at (board (apply_all h capture_prefix GameState_init)) 1 3 = Inr PS_EMPTY \<and>
   fst (update h (Move 0 1) (apply_all h capture_prefix GameState_init)) = None \<and>
   board_at (board (snd (update h (Move 0 1) (apply_all h capture_prefix GameState_init)))) 0 0
     = Inr PS_EMPTY \<and>
   board_at (board (snd (update h (Move 0 1) (apply_all h capture_prefix GameState_init)))) 0 2
     = Inr PS_EMPTY \<and>
   board_at (board (snd (update h (Move 0 1) (apply_all h capture_prefix GameState_init)))) 0 3
     = Inr PS_WHITE \<and>
   board_at (board (snd (update h (Move 0 1) (apply_all h capture_prefix GameState_init)))) 1 3
     = Inr PS_EMPTY"
proof -
  have s: "apply_all h capture_prefix GameState_init = capture_state"
    unfolding capture_state_def by (rule apply_all_hash_irrelevant[OF fresh_idents_init])
  have fr: "fresh_idents capture_state"
    unfolding capture_state_def by (rule fresh_idents_apply_all[OF fresh_idents_init])
  have u: "update h (Move 0 1) capture_state = update const_hash (Move 0 1) capture_state"
    by (rule update_hash_irrelevant[OF fr])
  show ?thesis unfolding s u using capture_state_facts by simp
qed

end
